theory Spec2Isabelle
  imports Main
begin

section \<open>The value conversion layer of \<^verbatim>\<open>cmdparser.hpp\<close>\<close>

subsection \<open>Exceptions, declared types and values\<close>

text \<open>
  Every exception raised inside the library derives from \<^verbatim>\<open>std::exception\<close>.
  The texts returned by \<^verbatim>\<open>what()\<close> for \<^verbatim>\<open>std::bad_cast\<close> and for the
  exceptions of \<^verbatim>\<open>std::stoi\<close> are the ones of libstdc++.
\<close>

datatype exn =
    bad_cast
  | runtime_error string
  | invalid_argument string
  | out_of_range string

fun what :: "exn \<Rightarrow> string" where
  "what bad_cast = ''std::bad_cast''"
| "what (runtime_error m) = m"
| "what (invalid_argument m) = m"
| "what (out_of_range m) = m"

text \<open>
  The template argument \<^verbatim>\<open>T\<close> of \<^verbatim>\<open>CmdArgument<T>\<close> and \<^verbatim>\<open>CmdFunction<T>\<close>.
  \<^verbatim>\<open>TNumBase b\<close> is \<^verbatim>\<open>cli::NumericalBase<int, b>\<close>. The integer types other than
  \<^verbatim>\<open>int\<close> for which \<^verbatim>\<open>Parser::parse\<close> has an overload are the type \<^verbatim>\<open>integral\<close>;
  \<^verbatim>\<open>TIntegral T\<close> is such a type and \<^verbatim>\<open>TNumBaseOf T b\<close> is \<^verbatim>\<open>cli::NumericalBase<T, b>\<close>.
  The floating point overloads are not part of this development.
\<close>

datatype integral = UnsignedInt | UnsignedLong | UnsignedLongLong | LongLong | Long

datatype ty = TInt | TBool | TString | TVector ty | TNumBase nat
  | TIntegral integral | TNumBaseOf integral nat

text \<open>
  A value together with its static type. \<^verbatim>\<open>VNumBase B v b\<close> is an object of class
  \<^verbatim>\<open>NumericalBase<int, B>\<close> with the members \<^verbatim>\<open>value = v\<close> and \<^verbatim>\<open>base = b\<close>;
  \<^verbatim>\<open>VIntegral T v\<close> is the value \<^verbatim>\<open>v\<close> of the integer type \<^verbatim>\<open>T\<close> and \<^verbatim>\<open>VNumBaseOf T B v b\<close>
  is an object of class \<^verbatim>\<open>NumericalBase<T, B>\<close>.
\<close>

datatype val =
    VInt int
  | VBool bool
  | VString string
  | VVector ty "val list"
  | VNumBase nat int nat
  | VIntegral integral int
  | VNumBaseOf integral nat int nat

fun type_of :: "val \<Rightarrow> ty" where
  "type_of (VInt _) = TInt"
| "type_of (VBool _) = TBool"
| "type_of (VString _) = TString"
| "type_of (VVector t _) = TVector t"
| "type_of (VNumBase B _ _) = TNumBase B"
| "type_of (VIntegral T _) = TIntegral T"
| "type_of (VNumBaseOf T B _ _) = TNumBaseOf T B"

text \<open>Both constructors of \<^verbatim>\<open>NumericalBase\<close> set \<^verbatim>\<open>base(numericalBase)\<close>.\<close>

definition NumericalBase :: "nat \<Rightarrow> int \<Rightarrow> val" where
  "NumericalBase B v = VNumBase B v B"

definition NumericalBaseOf :: "integral \<Rightarrow> nat \<Rightarrow> int \<Rightarrow> val" where
  "NumericalBaseOf T B v = VNumBaseOf T B v B"

text \<open>Value initialisation \<^verbatim>\<open>T()\<close>.\<close>

fun T_init :: "ty \<Rightarrow> val" where
  "T_init TInt = VInt 0"
| "T_init TBool = VBool False"
| "T_init TString = VString []"
| "T_init (TVector t) = VVector t []"
| "T_init (TNumBase B) = NumericalBase B 0"
| "T_init (TIntegral T) = VIntegral T 0"
| "T_init (TNumBaseOf T B) = NumericalBaseOf T B 0"

subsection \<open>\<^verbatim>\<open>std::to_string\<close>, \<^verbatim>\<open>std::stoi\<close> and the other conversions\<close>

text \<open>
  An \<^verbatim>\<open>int\<close> and an \<^verbatim>\<open>unsigned int\<close> have 32 bits; \<^verbatim>\<open>long\<close>, \<^verbatim>\<open>long long\<close> and their
  unsigned variants have 64 bits (the LP64 data model).
\<close>

definition INT_MIN :: int where "INT_MIN = - 2147483648"
definition INT_MAX :: int where "INT_MAX = 2147483647"
definition UINT_MAX :: int where "UINT_MAX = 2 ^ 32 - 1"
definition LONG_MIN :: int where "LONG_MIN = - (2 ^ 63)"
definition LONG_MAX :: int where "LONG_MAX = 2 ^ 63 - 1"
definition ULONG_MAX :: int where "ULONG_MAX = 2 ^ 64 - 1"

definition digit_char :: "nat \<Rightarrow> char" where
  "digit_char d = ''0123456789'' ! d"

fun decimal :: "nat \<Rightarrow> string" where
  "decimal n = (if n < 10 then [digit_char n] else decimal (n div 10) @ [digit_char (n mod 10)])"

text \<open>
  \<^verbatim>\<open>std::to_string\<close> of an integer type: the output of \<^verbatim>\<open>printf\<close> with \<^verbatim>\<open>%d\<close>, \<^verbatim>\<open>%u\<close>,
  \<^verbatim>\<open>%ld\<close>, \<^verbatim>\<open>%lu\<close>, \<^verbatim>\<open>%lld\<close> or \<^verbatim>\<open>%llu\<close>, the decimal digits of the value after a
  minus sign for a negative one.
\<close>

definition to_string :: "int \<Rightarrow> string" where
  "to_string n = (if n < 0 then CHR ''-'' # decimal (nat (- n)) else decimal (nat n))"

definition isspace :: "char \<Rightarrow> bool" where
  "isspace c = (c \<in> set [CHR '' '', CHR 0x09, CHR 0x0A, CHR 0x0B, CHR 0x0C, CHR 0x0D])"

definition digit_value :: "char \<Rightarrow> nat option" where
  "digit_value c =
     (let k = (of_char c :: nat) in
      if 48 \<le> k \<and> k \<le> 57 then Some (k - 48)
      else if 97 \<le> k \<and> k \<le> 122 then Some (k - 87)
      else if 65 \<le> k \<and> k \<le> 90 then Some (k - 55)
      else None)"

definition is_digit_in :: "nat \<Rightarrow> char \<Rightarrow> bool" where
  "is_digit_in b c = (case digit_value c of Some d \<Rightarrow> d < b | None \<Rightarrow> False)"

definition digits_value :: "nat \<Rightarrow> string \<Rightarrow> nat" where
  "digits_value b ds =
     foldl (\<lambda>acc c. acc * b + (case digit_value c of Some d \<Rightarrow> d | None \<Rightarrow> 0)) 0 ds"

definition strip_sign :: "string \<Rightarrow> bool \<times> string" where
  "strip_sign s =
     (case s of
        [] \<Rightarrow> (False, [])
      | c # r \<Rightarrow> if c = CHR ''-'' then (True, r) else if c = CHR ''+'' then (False, r) else (False, s))"

definition has_hex_prefix :: "string \<Rightarrow> bool" where
  "has_hex_prefix s =
     (case s of
        a # b # c # _ \<Rightarrow> a = CHR ''0'' \<and> (b = CHR ''x'' \<or> b = CHR ''X'') \<and> is_digit_in 16 c
      | _ \<Rightarrow> False)"

text \<open>
  The base of the conversion: a \<^verbatim>\<open>0x\<close> prefix is skipped for the bases 0 and 16; base 0
  detects hexadecimal, octal (a leading \<^verbatim>\<open>0\<close>) or decimal.
\<close>

definition select_base :: "nat \<Rightarrow> string \<Rightarrow> nat \<times> string" where
  "select_base base s =
     (if (base = 0 \<or> base = 16) \<and> has_hex_prefix s then (16, drop 2 s)
      else if base = 0 then (case s of [] \<Rightarrow> (10, s) | c # _ \<Rightarrow> if c = CHR ''0'' then (8, s) else (10, s))
      else (base, s))"

text \<open>
  \<^verbatim>\<open>strtol\<close> as ISO C describes it: white space, an optional sign, the prefix of the base,
  then the longest run of digits of that base. \<^verbatim>\<open>None\<close> when no conversion is performed,
  otherwise the mathematical value of the subject sequence. ISO C leaves a base of 1 or
  above 36 undefined; the C library returns 0 for it and leaves the end pointer as it
  was, so that the callers below see a conversion with the value 0.
\<close>

definition strtol :: "string \<Rightarrow> nat \<Rightarrow> int option" where
  "strtol str base =
     (if base = 1 \<or> 36 < base then Some 0
      else
        let (neg, body) = strip_sign (dropWhile isspace str);
            (b, ds) = select_base base body;
            digits = takeWhile (is_digit_in b) ds
        in if digits = [] then None
           else Some (if neg then - int (digits_value b digits) else int (digits_value b digits)))"

text \<open>
  \<^verbatim>\<open>std::stoi(str, 0, base)\<close>: \<^verbatim>\<open>std::invalid_argument\<close> when no conversion is performed,
  \<^verbatim>\<open>std::out_of_range\<close> when the value is no \<^verbatim>\<open>int\<close>. Characters after the number are
  ignored.
\<close>

definition stoi :: "string \<Rightarrow> nat \<Rightarrow> exn + int" where
  "stoi str base =
     (case strtol str base of
        None \<Rightarrow> Inl (invalid_argument ''stoi'')
      | Some v \<Rightarrow> if v < INT_MIN \<or> INT_MAX < v then Inl (out_of_range ''stoi'') else Inr v)"

text \<open>
  \<^verbatim>\<open>std::stol\<close> and \<^verbatim>\<open>std::stoll\<close> call \<^verbatim>\<open>strtol\<close> and \<^verbatim>\<open>strtoll\<close>, which report a value
  outside the type by \<^verbatim>\<open>ERANGE\<close>.
\<close>

definition stol :: "string \<Rightarrow> nat \<Rightarrow> exn + int" where
  "stol str base =
     (case strtol str base of
        None \<Rightarrow> Inl (invalid_argument ''stol'')
      | Some v \<Rightarrow> if v < LONG_MIN \<or> LONG_MAX < v then Inl (out_of_range ''stol'') else Inr v)"

definition stoll :: "string \<Rightarrow> nat \<Rightarrow> exn + int" where
  "stoll str base =
     (case strtol str base of
        None \<Rightarrow> Inl (invalid_argument ''stoll'')
      | Some v \<Rightarrow> if v < LONG_MIN \<or> LONG_MAX < v then Inl (out_of_range ''stoll'') else Inr v)"

text \<open>
  \<^verbatim>\<open>std::stoul\<close> and \<^verbatim>\<open>std::stoull\<close> call \<^verbatim>\<open>strtoul\<close> and \<^verbatim>\<open>strtoull\<close>, which read the same
  subject sequence as \<^verbatim>\<open>strtol\<close>, report \<^verbatim>\<open>ERANGE\<close> when the digits alone exceed the type
  and negate the value in the unsigned type after a minus sign.
\<close>

definition stoul :: "string \<Rightarrow> nat \<Rightarrow> exn + int" where
  "stoul str base =
     (case strtol str base of
        None \<Rightarrow> Inl (invalid_argument ''stoul'')
      | Some v \<Rightarrow> if ULONG_MAX < \<bar>v\<bar> then Inl (out_of_range ''stoul'') else Inr (v mod 2 ^ 64))"

definition stoull :: "string \<Rightarrow> nat \<Rightarrow> exn + int" where
  "stoull str base =
     (case strtol str base of
        None \<Rightarrow> Inl (invalid_argument ''stoull'')
      | Some v \<Rightarrow> if ULONG_MAX < \<bar>v\<bar> then Inl (out_of_range ''stoull'') else Inr (v mod 2 ^ 64))"

subsection \<open>\<^verbatim>\<open>Parser::parse\<close> and \<^verbatim>\<open>Parser::stringify\<close>\<close>

text \<open>\<^verbatim>\<open>static int parse(const std::vector<std::string>& elements, const int&, int numberBase = 0)\<close>\<close>

definition parse_int :: "string list \<Rightarrow> nat \<Rightarrow> exn + int" where
  "parse_int elements numberBase =
     (if length elements \<noteq> 1 then Inl bad_cast else stoi (elements ! 0) numberBase)"

text \<open>
  The overloads for \<^verbatim>\<open>unsigned int\<close>, \<^verbatim>\<open>unsigned long\<close>, \<^verbatim>\<open>unsigned long long\<close>,
  \<^verbatim>\<open>long long\<close> and \<^verbatim>\<open>long\<close>, each with the parameter \<^verbatim>\<open>int numberBase = 0\<close>. The
  \<^verbatim>\<open>static_cast<unsigned int>\<close> of the first one keeps the low 32 bits.
\<close>

definition parse_integral :: "integral \<Rightarrow> string list \<Rightarrow> nat \<Rightarrow> exn + int" where
  "parse_integral T elements numberBase =
     (if length elements \<noteq> 1 then Inl bad_cast
      else case T of
        UnsignedInt \<Rightarrow>
          (case stoul (elements ! 0) numberBase of Inl e \<Rightarrow> Inl e | Inr v \<Rightarrow> Inr (v mod 2 ^ 32))
      | UnsignedLong \<Rightarrow> stoul (elements ! 0) numberBase
      | UnsignedLongLong \<Rightarrow> stoull (elements ! 0) numberBase
      | LongLong \<Rightarrow> stoll (elements ! 0) numberBase
      | Long \<Rightarrow> stol (elements ! 0) numberBase)"

text \<open>The loop of the \<^verbatim>\<open>std::vector<T>\<close> overload: the first exception ends it.\<close>

fun parse_elements :: "(string \<Rightarrow> exn + val) \<Rightarrow> string list \<Rightarrow> exn + val list" where
  "parse_elements f [] = Inr []"
| "parse_elements f (element # rest) =
     (case f element of
        Inl e \<Rightarrow> Inl e
      | Inr v \<Rightarrow> (case parse_elements f rest of Inl e \<Rightarrow> Inl e | Inr vs \<Rightarrow> Inr (v # vs)))"

text \<open>
  The overloads of \<^verbatim>\<open>Parser::parse\<close>, selected by the static type of the second argument.
  For \<^verbatim>\<open>NumericalBase<T>\<close> (base 0) the more specialised template passes the literal 0,
  the other one passes \<^verbatim>\<open>wrapper.base\<close>; the number that comes back is converted to the
  wrapper by its constructor.
\<close>

function parse :: "string list \<Rightarrow> val \<Rightarrow> exn + val" where
  "parse elements (VInt _) =
     (case parse_int elements 0 of Inl e \<Rightarrow> Inl e | Inr n \<Rightarrow> Inr (VInt n))"
| "parse elements (VBool defval) =
     (if length elements \<noteq> 0
      then Inl (runtime_error ''A boolean command line parameter cannot have any arguments.'')
      else Inr (VBool (\<not> defval)))"
| "parse elements (VString _) =
     (if length elements \<noteq> 1 then Inl bad_cast else Inr (VString (elements ! 0)))"
| "parse elements (VVector t _) =
     (case parse_elements (\<lambda>element. parse [element] (T_init t)) elements of
        Inl e \<Rightarrow> Inl e
      | Inr values \<Rightarrow> Inr (VVector t values))"
| "parse elements (VNumBase B v b) =
     (case parse_int elements (if B = 0 then 0 else b) of
        Inl e \<Rightarrow> Inl e
      | Inr n \<Rightarrow> Inr (NumericalBase B n))"
| "parse elements (VIntegral T _) =
     (case parse_integral T elements 0 of Inl e \<Rightarrow> Inl e | Inr n \<Rightarrow> Inr (VIntegral T n))"
| "parse elements (VNumBaseOf T B v b) =
     (case parse_integral T elements (if B = 0 then 0 else b) of
        Inl e \<Rightarrow> Inl e
      | Inr n \<Rightarrow> Inr (NumericalBaseOf T B n))"
  by pat_completeness auto
termination
proof -
  have T: "type_of (T_init t) = t" for t
    by (cases t) (simp_all add: NumericalBase_def NumericalBaseOf_def)
  show ?thesis
    by (relation "measure (\<lambda>(elements, v). size (type_of v))") (simp_all add: T)
qed

text \<open>\<^verbatim>\<open>std::to_string(bool)\<close> promotes to \<^verbatim>\<open>int\<close>.\<close>

fun stringify :: "val \<Rightarrow> string" where
  "stringify (VInt n) = to_string n"
| "stringify (VBool b) = to_string (if b then 1 else 0)"
| "stringify (VString str) = str"
| "stringify (VVector t values) = ''[ '' @ concat (map (\<lambda>v. stringify v @ '' '') values) @ '']''"
| "stringify (VNumBase B v b) = to_string v"
| "stringify (VIntegral T n) = to_string n"
| "stringify (VNumBaseOf T B v b) = to_string v"


section \<open>Parameter descriptors\<close>

definition endl :: string where "endl = [CHR 0x0A]"
definition TAB :: string where "TAB = [CHR 0x09]"
definition SQ :: string where "SQ = [CHR 0x27]"

text \<open>The two \<^verbatim>\<open>std::ostream&\<close> arguments of \<^verbatim>\<open>run\<close>, \<^verbatim>\<open>output\<close> and \<^verbatim>\<open>error\<close>: the text
  written to each so far.\<close>

record streams =
  out_text :: string
  err_text :: string

text \<open>
  User code is called with the collected arguments (a callback) or with the value (a
  validation function) and with both streams. It gives back the text it wrote to
  \<^verbatim>\<open>output\<close>, the text it wrote to \<^verbatim>\<open>error\<close>, and what it returned or the
  \<^verbatim>\<open>std::exception\<close> it threw. A validation function that throws and user code that
  throws something else are outside this development.
\<close>

type_synonym user_callback = "string list \<Rightarrow> string \<times> string \<times> (exn + val)"

type_synonym ValidationFunction = "val \<Rightarrow> string \<times> string \<times> bool"

text \<open>
  The lambda of \<^verbatim>\<open>enable_help\<close> captures \<^verbatim>\<open>this\<close>; it is a constructor of its own and
  reads the parser when it is called.
\<close>

datatype callback = HelpCallback | UserCallback user_callback

text \<open>
  The members that the classes derived from \<^verbatim>\<open>CmdBase\<close> add: \<^verbatim>\<open>CmdFunction<T>\<close> has
  \<^verbatim>\<open>callback\<close> and \<^verbatim>\<open>value\<close>, \<^verbatim>\<open>CmdArgument<T>\<close> has \<^verbatim>\<open>value\<close> and \<^verbatim>\<open>valFun\<close>
  (\<^verbatim>\<open>nullptr\<close> is \<^verbatim>\<open>None\<close>).
\<close>

datatype CmdKind =
    CmdFunction callback val
  | CmdArgument val "ValidationFunction option"

record CmdBase =
  name :: string
  command :: string
  alternative :: string
  description :: string
  required :: bool
  handled :: bool
  dominant :: bool
  variadic :: bool
  arguments :: "string list"
  derived :: CmdKind

text \<open>\<^verbatim>\<open>ArgumentCountChecker<T>::Variadic\<close>\<close>

fun ArgumentCountChecker :: "ty \<Rightarrow> bool" where
  "ArgumentCountChecker (TVector _) = True"
| "ArgumentCountChecker _ = False"

text \<open>The constructor of \<^verbatim>\<open>CmdBase\<close>, followed by the members of the derived class.\<close>

definition new_CmdBase ::
  "string \<Rightarrow> string \<Rightarrow> string \<Rightarrow> bool \<Rightarrow> bool \<Rightarrow> bool \<Rightarrow> CmdKind \<Rightarrow> CmdBase" where
  "new_CmdBase nm alt descr req dmn var d =
     \<lparr> name = nm,
       command = (if length nm > 0 then ''-'' @ nm else []),
       alternative = (if length alt > 0 then ''--'' @ alt else []),
       description = descr,
       required = req,
       handled = False,
       dominant = dmn,
       variadic = var,
       arguments = [],
       derived = d \<rparr>"

definition cmd_value :: "CmdBase \<Rightarrow> val" where
  "cmd_value c = (case derived c of CmdFunction _ v \<Rightarrow> v | CmdArgument v _ \<Rightarrow> v)"

definition print_value :: "CmdBase \<Rightarrow> string" where
  "print_value c = (case derived c of CmdFunction _ _ \<Rightarrow> [] | CmdArgument v _ \<Rightarrow> stringify v)"

text \<open>\<^verbatim>\<open>CmdBase::usage\<close>\<close>

definition usage :: "CmdBase \<Rightarrow> string" where
  "usage c =
     (if command c = [] \<and> alternative c = []
      then TAB @ ''DEFAULT'' @ endl
      else TAB @ command c @ '','' @ TAB @ alternative c @ endl)
     @ (if required c
        then TAB @ TAB @ ''(required)''
        else TAB @ TAB @ ''Default:'' @ TAB @ SQ @ print_value c @ SQ @ endl
             @ TAB @ TAB @ ''[optional] '')
     @ description c @ endl @ endl"

text \<open>\<^verbatim>\<open>CmdBase::is\<close>\<close>

definition cmd_is :: "CmdBase \<Rightarrow> string \<Rightarrow> bool" where
  "cmd_is c given = (given = command c \<or> given = alternative c)"

section \<open>The parser\<close>

record Parser =
  p_appname :: string
  p_general_help_text :: string
  p_arguments :: "string list"
  p_commands :: "CmdBase list"

text \<open>
  A \<^verbatim>\<open>CmdBase*\<close> to a descriptor owned by \<^verbatim>\<open>_commands\<close> is the index of the
  descriptor; \<^verbatim>\<open>nullptr\<close> is \<^verbatim>\<open>None\<close>.
\<close>

fun first_index :: "('a \<Rightarrow> bool) \<Rightarrow> 'a list \<Rightarrow> nat option" where
  "first_index P [] = None"
| "first_index P (x # xs) = (if P x then Some 0 else map_option Suc (first_index P xs))"

text \<open>\<^verbatim>\<open>Parser::find\<close>\<close>

definition find_cmd :: "Parser \<Rightarrow> string \<Rightarrow> nat option" where
  "find_cmd p nm = first_index (\<lambda>c. cmd_is c nm) (p_commands p)"

definition find_default :: "Parser \<Rightarrow> nat option" where
  "find_default p = first_index (\<lambda>c. name c = []) (p_commands p)"

definition is_default :: "CmdBase \<Rightarrow> bool" where
  "is_default c = (command c = [] \<and> alternative c = [])"

definition has_help :: "Parser \<Rightarrow> bool" where
  "has_help p = list_ex (\<lambda>c. name c = ''h'' \<and> alternative c = ''--help'') (p_commands p)"

text \<open>\<^verbatim>\<open>Parser::usage\<close>\<close>

definition Parser_usage :: "Parser \<Rightarrow> string" where
  "Parser_usage p =
     p_general_help_text p @ endl @ endl @ ''Available parameters:'' @ endl @ endl
     @ concat (map usage (p_commands p))"

definition print_help :: "Parser \<Rightarrow> string" where
  "print_help p = (if has_help p then ''For more help use --help or -h.'' @ endl else [])"

definition invalid_parameter :: "Parser \<Rightarrow> string \<Rightarrow> string" where
  "invalid_parameter p param =
     ''ERROR: Invalid parameter '' @ SQ @ param @ SQ @ endl @ print_help p"

subsection \<open>\<^verbatim>\<open>parse\<close> and \<^verbatim>\<open>validate\<close> of a descriptor\<close>

fun invoke :: "Parser \<Rightarrow> callback \<Rightarrow> user_callback" where
  "invoke p HelpCallback args = (Parser_usage p, [], Inr (VBool False))"
| "invoke p (UserCallback f) args = f args"

definition emit :: "streams \<Rightarrow> string \<Rightarrow> string \<Rightarrow> streams" where
  "emit st out err = st\<lparr>out_text := out_text st @ out, err_text := err_text st @ err\<rparr>"

text \<open>\<^verbatim>\<open>CmdFunction::parse\<close>\<close>

definition CmdFunction_parse ::
  "Parser \<Rightarrow> CmdBase \<Rightarrow> callback \<Rightarrow> streams \<Rightarrow> bool \<times> CmdBase \<times> streams" where
  "CmdFunction_parse p c cb st =
     (case invoke p cb (arguments c) of
        (out, err, Inr v) \<Rightarrow> (True, c\<lparr>derived := CmdFunction cb v\<rparr>, emit st out err)
      | (out, err, Inl e) \<Rightarrow>
          (False, c,
           emit st out
             (err @ ''ERROR: Failed parsing function'' @ SQ @ ''s arguments: '' @ endl
              @ concat (map (\<lambda>a. a @ '', '' @ endl) (arguments c))
              @ what e @ endl)))"

text \<open>\<^verbatim>\<open>CmdArgument::parse\<close>\<close>

definition CmdArgument_parse ::
  "CmdBase \<Rightarrow> val \<Rightarrow> ValidationFunction option \<Rightarrow> streams \<Rightarrow> bool \<times> CmdBase \<times> streams" where
  "CmdArgument_parse c v vf st =
     (if \<not> required c \<and> arguments c = [] then (True, c, st)
      else
        case parse (arguments c) v of
          Inr v' \<Rightarrow> (True, c\<lparr>derived := CmdArgument v' vf\<rparr>, st)
        | Inl e \<Rightarrow>
            (False, c,
             emit st []
               ((if name c = []
                 then ''ERROR: Parsing '' @ SQ @ ''default'' @ SQ @ '' command arguments: ''
                 else ''ERROR: Parsing '' @ SQ @ name c @ SQ @ '' command arguments: '')
                @ (if arguments c = []
                   then ''no arguments provided''
                   else concat (map (\<lambda>a. a @ '', '' @ endl) (arguments c)))
                @ what e @ endl)))"

text \<open>The virtual call \<^verbatim>\<open>command->parse(output, error)\<close>.\<close>

definition cmd_parse :: "Parser \<Rightarrow> CmdBase \<Rightarrow> streams \<Rightarrow> bool \<times> CmdBase \<times> streams" where
  "cmd_parse p c st =
     (case derived c of
        CmdFunction cb v \<Rightarrow> CmdFunction_parse p c cb st
      | CmdArgument v vf \<Rightarrow> CmdArgument_parse c v vf st)"

text \<open>The virtual call \<^verbatim>\<open>command->validate(output, error)\<close>.\<close>

definition validate :: "CmdBase \<Rightarrow> streams \<Rightarrow> bool \<times> streams" where
  "validate c st =
     (case derived c of
        CmdFunction cb v \<Rightarrow> (True, st)
      | CmdArgument v vf \<Rightarrow>
          (case vf of
             None \<Rightarrow> (True, st)
           | Some valFun \<Rightarrow> (case valFun v of (out, err, ok) \<Rightarrow> (ok, emit st out err))))"

subsection \<open>Registration\<close>

text \<open>The constructor \<^verbatim>\<open>Parser()\<close>.\<close>

definition new_Parser :: Parser where
  "new_Parser = \<lparr> p_appname = [], p_general_help_text = [], p_arguments = [], p_commands = [] \<rparr>"

definition push_back :: "Parser \<Rightarrow> CmdBase \<Rightarrow> Parser" where
  "push_back p c = p\<lparr>p_commands := p_commands p @ [c]\<rparr>"

text \<open>\<^verbatim>\<open>T\<close> is the type of \<^verbatim>\<open>defaultValue\<close>.\<close>

definition set_default ::
  "bool \<Rightarrow> string \<Rightarrow> val \<Rightarrow> ValidationFunction option \<Rightarrow> Parser \<Rightarrow> Parser" where
  "set_default is_required descr defaultValue vf p =
     push_back p
       (new_CmdBase [] [] descr is_required False (ArgumentCountChecker (type_of defaultValue))
          (CmdArgument defaultValue vf))"

text \<open>
  \<^verbatim>\<open>set_required\<close> leaves the member \<^verbatim>\<open>value\<close> default-initialised: \<^verbatim>\<open>T()\<close> for a class
  type, indeterminate for \<^verbatim>\<open>int\<close> and \<^verbatim>\<open>bool\<close>. The content is the argument
  \<^verbatim>\<open>uninitialised\<close>, whose type is \<^verbatim>\<open>T\<close>.
\<close>

definition set_required ::
  "string \<Rightarrow> string \<Rightarrow> string \<Rightarrow> ValidationFunction option \<Rightarrow> bool \<Rightarrow> val \<Rightarrow> Parser \<Rightarrow> Parser" where
  "set_required nm alt descr vf dmn uninitialised p =
     push_back p
       (new_CmdBase nm alt descr True dmn (ArgumentCountChecker (type_of uninitialised))
          (CmdArgument uninitialised vf))"

definition set_optional ::
  "string \<Rightarrow> string \<Rightarrow> val \<Rightarrow> string \<Rightarrow> ValidationFunction option \<Rightarrow> bool \<Rightarrow> Parser \<Rightarrow> Parser" where
  "set_optional nm alt defaultValue descr vf dmn p =
     push_back p
       (new_CmdBase nm alt descr False dmn (ArgumentCountChecker (type_of defaultValue))
          (CmdArgument defaultValue vf))"

text \<open>
  The member \<^verbatim>\<open>value\<close> of a \<^verbatim>\<open>CmdFunction<T>\<close> is not initialised either; nothing reads
  it. \<^verbatim>\<open>T\<close> is the return type of the callback.
\<close>

definition set_callback ::
  "string \<Rightarrow> string \<Rightarrow> callback \<Rightarrow> string \<Rightarrow> bool \<Rightarrow> val \<Rightarrow> Parser \<Rightarrow> Parser" where
  "set_callback nm alt cb descr dmn uninitialised p =
     push_back p
       (new_CmdBase nm alt descr False dmn (ArgumentCountChecker (type_of uninitialised))
          (CmdFunction cb uninitialised))"

definition enable_help :: "Parser \<Rightarrow> Parser" where
  "enable_help p = set_callback ''h'' ''help'' HelpCallback [] True (VBool False) p"

text \<open>\<^verbatim>\<open>init(argc, argv)\<close>, with \<^verbatim>\<open>argv[0]\<close> and the rest of \<^verbatim>\<open>argv\<close>.\<close>

definition init :: "string \<Rightarrow> string list \<Rightarrow> Parser \<Rightarrow> Parser" where
  "init argv0 args p = enable_help (p\<lparr>p_appname := argv0, p_arguments := p_arguments p @ args\<rparr>)"

subsection \<open>\<^verbatim>\<open>Parser::run\<close>\<close>

text \<open>
  \<^verbatim>\<open>run\<close> writes through \<^verbatim>\<open>current\<close> after assigning \<^verbatim>\<open>find_default()\<close> to it; when
  no descriptor has an empty name that is a write through \<^verbatim>\<open>nullptr\<close>, which ends
  the program.
\<close>

datatype fault = NullPointerDereference

definition update_cmd :: "Parser \<Rightarrow> nat \<Rightarrow> (CmdBase \<Rightarrow> CmdBase) \<Rightarrow> Parser" where
  "update_cmd p i f = p\<lparr>p_commands := (p_commands p)[i := f (p_commands p ! i)]\<rparr>"

definition set_handled :: "Parser \<Rightarrow> nat \<Rightarrow> Parser" where
  "set_handled p i = update_cmd p i (\<lambda>c. c\<lparr>handled := True\<rparr>)"

definition push_argument :: "Parser \<Rightarrow> nat \<Rightarrow> string \<Rightarrow> Parser" where
  "push_argument p i a = update_cmd p i (\<lambda>c. c\<lparr>arguments := arguments c @ [a]\<rparr>)"

text \<open>
  The first loop of \<^verbatim>\<open>run\<close>, over \<^verbatim>\<open>_arguments\<close> from left to right, with the local
  variable \<^verbatim>\<open>current\<close>. \<^verbatim>\<open>Inr (False, _)\<close> is a \<^verbatim>\<open>return false\<close> inside the loop.
\<close>

definition isarg :: "string \<Rightarrow> bool" where
  "isarg currArg \<longleftrightarrow> length currArg > 0 \<and> hd currArg = CHR ''-''"

definition associated :: "Parser \<Rightarrow> string \<Rightarrow> nat option" where
  "associated p currArg = (if isarg currArg then find_cmd p currArg else None)"

definition only_one_parameter :: "CmdBase \<Rightarrow> string \<Rightarrow> string" where
  "only_one_parameter c currArg =
     (if is_default c
      then SQ @ ''Default'' @ SQ @ '' command can have only one parameter.'' @ endl
      else ''Command '' @ SQ @ name c @ ''['' @ alternative c @ '']'' @ SQ
           @ '' can have only one parameter.'' @ endl)
     @ ''Given parameter '' @ SQ @ currArg @ SQ @ '' is invalid in this context!'' @ endl"

fun tokenize :: "string list \<Rightarrow> nat option \<Rightarrow> Parser \<Rightarrow> streams \<Rightarrow> fault + (bool \<times> Parser \<times> streams)" where
  "tokenize [] current p st = Inr (True, p, st)"
| "tokenize (currArg # rest) current p st =
     (case associated p currArg of
        Some a \<Rightarrow> tokenize rest (Some a) (set_handled p a) st
      | None \<Rightarrow>
          (case current of
             None \<Rightarrow> Inr (False, p, emit st [] (invalid_parameter p currArg))
           | Some cur \<Rightarrow>
               if \<not> variadic (p_commands p ! cur) then
                 if arguments (p_commands p ! cur) = [] then
                   (case find_default (push_argument p cur currArg) of
                      None \<Rightarrow> Inl NullPointerDereference
                    | Some d \<Rightarrow> tokenize rest (Some d) (set_handled (push_argument p cur currArg) d) st)
                 else if isarg currArg then Inr (False, p, emit st [] (invalid_parameter p currArg))
                 else Inr (False, p, emit st (print_help p) (only_one_parameter (p_commands p ! cur) currArg))
               else tokenize rest (Some cur) (set_handled (push_argument p cur currArg) cur) st))"

text \<open>\<^verbatim>\<open>!command->parse(output, error) || !command->validate(output, error)\<close>, negated.\<close>

definition parse_and_validate :: "Parser \<Rightarrow> nat \<Rightarrow> streams \<Rightarrow> bool \<times> Parser \<times> streams" where
  "parse_and_validate p i st =
     (case cmd_parse p (p_commands p ! i) st of
        (False, c', st') \<Rightarrow> (False, update_cmd p i (\<lambda>_. c'), st')
      | (True, c', st') \<Rightarrow>
          (case validate c' st' of (ok, st'') \<Rightarrow> (ok, update_cmd p i (\<lambda>_. c'), st'')))"

definition invalid_arguments :: "CmdBase \<Rightarrow> string" where
  "invalid_arguments c =
     ''ERROR: The parameter '' @ SQ @ name c @ SQ @ '' has invalid arguments. Usage:'' @ endl @ usage c"

text \<open>The second loop: the dominant descriptors, by position in \<^verbatim>\<open>_commands\<close>.\<close>

fun dominant_loop :: "nat list \<Rightarrow> Parser \<Rightarrow> streams \<Rightarrow> bool \<times> Parser \<times> streams" where
  "dominant_loop [] p st = (True, p, st)"
| "dominant_loop (i # rest) p st =
     (if handled (p_commands p ! i) \<and> dominant (p_commands p ! i) then
        (case parse_and_validate p i st of
           (False, p', st') \<Rightarrow> (False, p', emit st' [] (invalid_arguments (p_commands p' ! i)))
         | (True, p', st') \<Rightarrow> dominant_loop rest p' st')
      else dominant_loop rest p st)"

text \<open>The third loop: the missing required descriptors.\<close>

definition missing_required :: "CmdBase \<Rightarrow> string" where
  "missing_required c =
     ''ERROR: The parameter '' @ SQ @ name c @ SQ @ '' is required. Usage:'' @ endl @ usage c"

fun required_loop :: "CmdBase list \<Rightarrow> streams \<Rightarrow> bool \<times> streams" where
  "required_loop [] st = (True, st)"
| "required_loop (c # rest) st =
     (if required c \<and> \<not> handled c then (False, emit st [] (missing_required c))
      else required_loop rest st)"

text \<open>The fourth loop: all remaining descriptors.\<close>

fun remaining_loop :: "nat list \<Rightarrow> Parser \<Rightarrow> streams \<Rightarrow> bool \<times> Parser \<times> streams" where
  "remaining_loop [] p st = (True, p, st)"
| "remaining_loop (i # rest) p st =
     (if handled (p_commands p ! i) \<and> \<not> dominant (p_commands p ! i) then
        (case parse_and_validate p i st of
           (False, p', st') \<Rightarrow> (False, p', emit st' [] (invalid_arguments (p_commands p' ! i)))
         | (True, p', st') \<Rightarrow> remaining_loop rest p' st')
      else remaining_loop rest p st)"

text \<open>The block guarded by \<^verbatim>\<open>_arguments.size() > 0\<close>.\<close>

definition tokenization :: "Parser \<Rightarrow> streams \<Rightarrow> fault + (bool \<times> Parser \<times> streams)" where
  "tokenization p st =
     (if length (p_arguments p) > 0
      then tokenize (p_arguments p) (find_default p) p st
      else Inr (True, p, st))"

text \<open>
  \<^verbatim>\<open>bool run(std::ostream& output, std::ostream& error)\<close>: the value returned, the parser
  and the streams afterwards.
\<close>

definition run :: "Parser \<Rightarrow> streams \<Rightarrow> fault + (bool \<times> Parser \<times> streams)" where
  "run p st =
     (case tokenization p st of
        Inl f \<Rightarrow> Inl f
      | Inr (False, p1, st1) \<Rightarrow> Inr (False, p1, st1)
      | Inr (True, p1, st1) \<Rightarrow>
          (case dominant_loop [0..<length (p_commands p1)] p1 st1 of
             (False, p2, st2) \<Rightarrow> Inr (False, p2, st2)
           | (True, p2, st2) \<Rightarrow>
               (case required_loop (p_commands p2) st2 of
                  (False, st3) \<Rightarrow> Inr (False, p2, st3)
                | (True, st3) \<Rightarrow> Inr (remaining_loop [0..<length (p_commands p2)] p2 st3))))"

subsection \<open>\<^verbatim>\<open>Parser::get\<close>\<close>

text \<open>
  \<^verbatim>\<open>get<T>(name)\<close>: the \<^verbatim>\<open>dynamic_cast\<close> succeeds on a \<^verbatim>\<open>CmdArgument<T>\<close> of the same
  \<^verbatim>\<open>T\<close> only.
\<close>

fun get_loop :: "CmdBase list \<Rightarrow> ty \<Rightarrow> string \<Rightarrow> exn + val" where
  "get_loop [] T nm = Inl (runtime_error (''The parameter '' @ nm @ '' could not be found.''))"
| "get_loop (c # rest) T nm =
     (if name c = nm then
        (case derived c of
           CmdArgument v vf \<Rightarrow>
             if type_of v = T then Inr v
             else Inl (runtime_error (''Invalid usage of the parameter '' @ nm @ '' detected.''))
         | CmdFunction cb v \<Rightarrow>
             Inl (runtime_error (''Invalid usage of the parameter '' @ nm @ '' detected.'')))
      else get_loop rest T nm)"

definition get :: "Parser \<Rightarrow> ty \<Rightarrow> string \<Rightarrow> exn + val" where
  "get p T nm = get_loop (p_commands p) T nm"

definition get_default :: "Parser \<Rightarrow> ty \<Rightarrow> exn + val" where
  "get_default p T = get p T []"

section \<open>Canonical literals\<close>

text \<open>
  The canonical literal of an integer between \<^verbatim>\<open>lo\<close> and \<^verbatim>\<open>hi\<close>: decimal digits, a minus
  sign for a negative value, no plus sign, no leading zero, no \<^verbatim>\<open>-0\<close>, and a value in the
  range.
\<close>

definition is_decimal_digit :: "char \<Rightarrow> bool" where
  "is_decimal_digit c = (c \<in> set ''0123456789'')"

definition canonical_literal :: "int \<Rightarrow> int \<Rightarrow> string \<Rightarrow> bool" where
  "canonical_literal lo hi s =
     (let (neg, ds) = (case s of [] \<Rightarrow> (False, []) | c # r \<Rightarrow> if c = CHR ''-'' then (True, r) else (False, s));
          n = (if neg then - int (digits_value 10 ds) else int (digits_value 10 ds))
      in ds \<noteq> [] \<and> list_all is_decimal_digit ds
         \<and> (case ds of c # r \<Rightarrow> c = CHR ''0'' \<longrightarrow> r = [] \<and> \<not> neg | [] \<Rightarrow> False)
         \<and> lo \<le> n \<and> n \<le> hi)"

text \<open>The canonical literals of an \<^verbatim>\<open>int\<close> and of the other integer types.\<close>

definition canonical_int :: "string \<Rightarrow> bool" where
  "canonical_int s = canonical_literal INT_MIN INT_MAX s"

fun integral_min :: "integral \<Rightarrow> int" where
  "integral_min UnsignedInt = 0"
| "integral_min UnsignedLong = 0"
| "integral_min UnsignedLongLong = 0"
| "integral_min LongLong = LONG_MIN"
| "integral_min Long = LONG_MIN"

fun integral_max :: "integral \<Rightarrow> int" where
  "integral_max UnsignedInt = UINT_MAX"
| "integral_max UnsignedLong = ULONG_MAX"
| "integral_max UnsignedLongLong = ULONG_MAX"
| "integral_max LongLong = LONG_MAX"
| "integral_max Long = LONG_MAX"

definition canonical_integral :: "integral \<Rightarrow> string \<Rightarrow> bool" where
  "canonical_integral T s = canonical_literal (integral_min T) (integral_max T) s"

section \<open>Observing a run\<close>

definition empty_streams :: streams where
  "empty_streams = \<lparr>out_text = [], err_text = []\<rparr>"

text \<open>What \<^verbatim>\<open>run\<close> returned.\<close>

definition returned :: "fault + (bool \<times> Parser \<times> streams) \<Rightarrow> fault + bool" where
  "returned r = (case r of Inl f \<Rightarrow> Inl f | Inr (b, p, st) \<Rightarrow> Inr b)"

text \<open>Name, \<^verbatim>\<open>handled\<close>, collected arguments and value of every descriptor after \<^verbatim>\<open>run\<close>.\<close>

definition descriptors ::
  "fault + (bool \<times> Parser \<times> streams) \<Rightarrow> (string \<times> bool \<times> string list \<times> val) list" where
  "descriptors r =
     (case r of
        Inl f \<Rightarrow> []
      | Inr (b, p, st) \<Rightarrow> map (\<lambda>c. (name c, handled c, arguments c, cmd_value c)) (p_commands p))"

text \<open>What \<^verbatim>\<open>run\<close> wrote to \<^verbatim>\<open>error\<close>.\<close>

definition diagnostics :: "fault + (bool \<times> Parser \<times> streams) \<Rightarrow> string" where
  "diagnostics r = (case r of Inl f \<Rightarrow> [] | Inr (b, p, st) \<Rightarrow> err_text st)"

text \<open>The client code \<^verbatim>\<open>parser.run(output, error); parser.get<T>(name)\<close>.\<close>

definition run_get :: "Parser \<Rightarrow> streams \<Rightarrow> ty \<Rightarrow> string \<Rightarrow> fault + (bool \<times> (exn + val))" where
  "run_get p st T nm =
     (case run p st of Inl f \<Rightarrow> Inl f | Inr (b, p', st') \<Rightarrow> Inr (b, get p' T nm))"

section \<open>Example programs\<close>

text \<open>The constructor \<^verbatim>\<open>Parser(argc, argv)\<close>.\<close>

definition Parser_argv :: "string \<Rightarrow> string list \<Rightarrow> Parser" where
  "Parser_argv argv0 args = init argv0 args new_Parser"

text \<open>
  \<^verbatim>\<open>set_default<std::string>(false)\<close> and \<^verbatim>\<open>set_optional<int>("n", "number", 0)\<close>.
  The descriptors are, in order, the help callback, the default descriptor and \<^verbatim>\<open>-n\<close>.
\<close>

definition positional_cli :: "string list \<Rightarrow> Parser" where
  "positional_cli args =
     set_optional ''n'' ''number'' (VInt 0) [] None False
       (set_default False [] (VString []) None (Parser_argv ''prog'' args))"

text \<open>The same with \<^verbatim>\<open>set_default<std::vector<std::string>>(false)\<close>.\<close>

definition variadic_cli :: "string list \<Rightarrow> Parser" where
  "variadic_cli args =
     set_optional ''n'' ''number'' (VInt 0) [] None False
       (set_default False [] (VVector TString []) None (Parser_argv ''prog'' args))"

text \<open>\<^verbatim>\<open>set_optional<int>("n", "number", 0)\<close> alone.\<close>

definition flag_only_cli :: "string list \<Rightarrow> Parser" where
  "flag_only_cli args = set_optional ''n'' ''number'' (VInt 0) [] None False (Parser_argv ''prog'' args)"

text \<open>\<^verbatim>\<open>set_optional<bool>("f", "flag", false)\<close>.\<close>

definition bool_cli :: "string list \<Rightarrow> Parser" where
  "bool_cli args = set_optional ''f'' ''flag'' (VBool False) [] None False (Parser_argv ''prog'' args)"

text \<open>\<^verbatim>\<open>set_required<int>("a", "alpha")\<close> and \<^verbatim>\<open>set_required<int>("b", "beta")\<close>.\<close>

definition required_cli :: "string list \<Rightarrow> Parser" where
  "required_cli args =
     set_required ''b'' ''beta'' [] None False (VInt 0)
       (set_required ''a'' ''alpha'' [] None False (VInt 0) (Parser_argv ''prog'' args))"

text \<open>
  \<^verbatim>\<open>set_default<std::string>(false)\<close> and
  \<^verbatim>\<open>set_optional<cli::NumericalBase<int, 16>>("x", "hex", 0)\<close>.
\<close>

definition hex_cli :: "string list \<Rightarrow> Parser" where
  "hex_cli args =
     set_optional ''x'' ''hex'' (NumericalBase 16 0) [] None False
       (set_default False [] (VString []) None (Parser_argv ''prog'' args))"

text \<open>A callback of type \<^verbatim>\<open>std::function<bool(CallbackArgs&)>\<close> that returns \<^verbatim>\<open>false\<close>.\<close>

definition reports_failure :: user_callback where
  "reports_failure args = ([], [], Inr (VBool False))"

definition failing_callback :: CmdBase where
  "failing_callback =
     new_CmdBase ''c'' ''check'' [] False False False (CmdFunction (UserCallback reports_failure) (VBool True))"

text \<open>
  A dominant callback \<^verbatim>\<open>-d\<close> that writes to both streams, and a required \<^verbatim>\<open>-r\<close>.
\<close>

definition announces :: user_callback where
  "announces args = (''called'', ''noted'', Inr (VInt 1))"

definition dominant_cli :: "string list \<Rightarrow> Parser" where
  "dominant_cli args =
     set_required ''r'' ''req'' [] None False (VInt 0)
       (set_callback ''d'' ''dom'' (UserCallback announces) [] True (VInt 0) (Parser_argv ''prog'' args))"

text \<open>
  A validation function that writes to both streams and rejects every value, on a
  dominant \<^verbatim>\<open>-v\<close>; a default descriptor; and a required \<^verbatim>\<open>-r\<close> that has no long flag.
  The descriptors are, in order, the help callback, the default descriptor, \<^verbatim>\<open>-v\<close> and
  \<^verbatim>\<open>-r\<close>.
\<close>

definition rejects :: ValidationFunction where
  "rejects v = (''seen'', ''rejected'', False)"

definition guarded_cli :: "string list \<Rightarrow> Parser" where
  "guarded_cli args =
     set_required ''r'' [] [] None False (VInt 0)
       (set_optional ''v'' ''verbose'' (VInt 0) [] (Some rejects) True
          (set_default False [] (VString []) None (Parser_argv ''prog'' args)))"

section \<open>Predicates used in the proofs\<close>

text \<open>The members that neither the tokenizer nor a pass writes.\<close>

definition same_flags :: "CmdBase \<Rightarrow> CmdBase \<Rightarrow> bool" where
  "same_flags c c' \<longleftrightarrow>
     name c' = name c \<and> command c' = command c \<and> alternative c' = alternative c
     \<and> description c' = description c \<and> required c' = required c
     \<and> dominant c' = dominant c \<and> variadic c' = variadic c"

text \<open>The tokenizer writes \<^verbatim>\<open>handled\<close> and \<^verbatim>\<open>arguments\<close> only, and never clears \<^verbatim>\<open>handled\<close>.\<close>

definition tokenized :: "CmdBase \<Rightarrow> CmdBase \<Rightarrow> bool" where
  "tokenized c c' \<longleftrightarrow> same_flags c c' \<and> derived c' = derived c \<and> (handled c \<longrightarrow> handled c')"

definition same_parser :: "Parser \<Rightarrow> Parser \<Rightarrow> bool" where
  "same_parser p p' \<longleftrightarrow>
     p_appname p' = p_appname p \<and> p_general_help_text p' = p_general_help_text p
     \<and> p_arguments p' = p_arguments p"

text \<open>A value parameter, as opposed to a callback parameter.\<close>

definition is_argument :: "CmdBase \<Rightarrow> bool" where
  "is_argument c = (case derived c of CmdArgument v vf \<Rightarrow> True | CmdFunction cb v \<Rightarrow> False)"

text \<open>The condition under which \<^verbatim>\<open>CmdArgument::parse\<close> returns at once.\<close>

definition uses_default :: "CmdBase \<Rightarrow> bool" where
  "uses_default c \<longleftrightarrow> is_argument c \<and> \<not> required c \<and> arguments c = []"

text \<open>
  A pass over the dominant (\<^verbatim>\<open>dmn\<close>) or the other descriptors writes the members of the
  derived class only, and only of a handled descriptor of its kind.
\<close>

definition resolved :: "bool \<Rightarrow> CmdBase \<Rightarrow> CmdBase \<Rightarrow> bool" where
  "resolved dmn c c' \<longleftrightarrow>
     c' = c \<or>
     (handled c \<and> dominant c = dmn \<and> \<not> uses_default c
      \<and> (\<exists>d. c' = c\<lparr>derived := d\<rparr>) \<and> is_argument c' = is_argument c)"

text \<open>A value parameter of type \<^verbatim>\<open>bool\<close> that is not required.\<close>

definition optional_bool :: "bool \<Rightarrow> ValidationFunction option \<Rightarrow> CmdBase \<Rightarrow> bool" where
  "optional_bool x vf c \<longleftrightarrow> derived c = CmdArgument (VBool x) vf \<and> \<not> required c"

section \<open>Lemmas on the conversions\<close>

lemma is_decimal_digit_cases:
  "is_decimal_digit c \<Longrightarrow> \<exists>d<10. c = digit_char d \<and> digit_value c = Some d"
  unfolding is_decimal_digit_def digit_char_def digit_value_def
  apply simp
  apply (elim disjE)
  apply (rule exI[of _ 0], simp)
  apply (rule exI[of _ 1], simp)
  apply (rule exI[of _ 2], simp)
  apply (rule exI[of _ 3], simp)
  apply (rule exI[of _ 4], simp)
  apply (rule exI[of _ 5], simp)
  apply (rule exI[of _ 6], simp)
  apply (rule exI[of _ 7], simp)
  apply (rule exI[of _ 8], simp)
  apply (rule exI[of _ 9], simp)
  done

lemma digits_value_snoc:
  "digits_value b (ds @ [c]) = digits_value b ds * b + (case digit_value c of Some d \<Rightarrow> d | None \<Rightarrow> 0)"
  by (simp add: digits_value_def)

lemma decimal_small: "n < 10 \<Longrightarrow> decimal n = [digit_char n]"
  by simp

lemma decimal_big: "10 \<le> n \<Longrightarrow> decimal n = decimal (n div 10) @ [digit_char (n mod 10)]"
  by simp

lemma decimal_digits_value:
  "ds \<noteq> [] \<Longrightarrow> list_all is_decimal_digit ds \<Longrightarrow> (hd ds = CHR ''0'' \<longrightarrow> ds = ''0'')
    \<Longrightarrow> decimal (digits_value 10 ds) = ds"
proof (induction ds rule: rev_induct)
  case Nil
  then show ?case by simp
next
  case (snoc c xs)
  from snoc.prems(2) have "is_decimal_digit c" by simp
  then obtain d where d: "d < 10" "c = digit_char d" "digit_value c = Some d"
    using is_decimal_digit_cases by blast
  have val: "digits_value 10 (xs @ [c]) = digits_value 10 xs * 10 + d"
    by (simp add: digits_value_snoc d(3))
  show ?case
  proof (cases "xs = []")
    case True
    then have "digits_value 10 (xs @ [c]) = d" by (simp add: digits_value_snoc d(3) digits_value_def)
    with d True show ?thesis by simp
  next
    case False
    then have hd_eq: "hd (xs @ [c]) = hd xs" by simp
    from False have "xs @ [c] \<noteq> ''0''" by (cases xs) simp_all
    with snoc.prems(3) hd_eq have nz: "hd xs \<noteq> CHR ''0''" by auto
    from snoc.prems(2) have "list_all is_decimal_digit xs" by simp
    with snoc.IH False nz have IH: "decimal (digits_value 10 xs) = xs" by simp
    have pos: "digits_value 10 xs \<noteq> 0"
    proof
      assume "digits_value 10 xs = 0"
      with IH have "xs = decimal 0" by simp
      then have "xs = ''0''" by (simp add: digit_char_def)
      with nz show False by simp
    qed
    then have big: "10 \<le> digits_value 10 xs * 10 + d" by simp
    have "decimal (digits_value 10 xs * 10 + d)
            = decimal ((digits_value 10 xs * 10 + d) div 10) @ [digit_char ((digits_value 10 xs * 10 + d) mod 10)]"
      using decimal_big [OF big] .
    also have "(digits_value 10 xs * 10 + d) div 10 = digits_value 10 xs" using d(1) by simp
    also have "(digits_value 10 xs * 10 + d) mod 10 = d" using d(1) by simp
    finally show ?thesis using IH d(2) val by simp
  qed
qed

lemma is_decimal_digit_props:
  assumes "is_decimal_digit c"
  shows "\<not> isspace c" "c \<noteq> CHR ''-''" "c \<noteq> CHR ''+''" "c \<noteq> CHR ''x''" "c \<noteq> CHR ''X''"
    "is_digit_in 10 c"
  using assms unfolding is_decimal_digit_def isspace_def is_digit_in_def digit_value_def
  by auto

lemma takeWhile_decimal:
  "list_all is_decimal_digit ds \<Longrightarrow> takeWhile (is_digit_in 10) ds = ds"
  by (induction ds) (simp_all add: is_decimal_digit_props)

lemma no_hex_prefix_decimal:
  "list_all is_decimal_digit ds \<Longrightarrow> \<not> has_hex_prefix ds"
  unfolding has_hex_prefix_def
  by (auto split: list.splits dest: is_decimal_digit_props)

lemma select_base_decimal:
  assumes "list_all is_decimal_digit ds" "hd ds \<noteq> CHR ''0'' \<or> base = 10" "base = 0 \<or> base = 10"
  shows "select_base base ds = (10, ds)"
  using assms no_hex_prefix_decimal [OF assms(1)]
  by (cases ds) (auto simp: select_base_def)

lemma strtol_unsigned_decimal:
  assumes "ds \<noteq> []" "list_all is_decimal_digit ds" "hd ds = CHR ''0'' \<longrightarrow> ds = ''0''"
    and base: "base = 0 \<or> base = 10"
  shows "strtol ds base = Some (int (digits_value 10 ds))"
proof -
  from assms obtain c r where ds: "ds = c # r" by (cases ds) auto
  with assms(2) have c: "is_decimal_digit c" by simp
  from c ds have dw: "dropWhile isspace ds = ds" by (simp add: is_decimal_digit_props)
  have ss: "strip_sign (dropWhile isspace ds) = (False, ds)"
    using c ds dw by (simp add: strip_sign_def is_decimal_digit_props)
  show ?thesis
  proof (cases "c = CHR ''0'' \<and> base = 0")
    case True
    with assms(3) ds have "ds = ''0''" by simp
    with True show ?thesis
      by (simp add: strtol_def strip_sign_def isspace_def select_base_def has_hex_prefix_def
          is_digit_in_def digit_value_def digits_value_def)
  next
    case False
    with base ds have "hd ds \<noteq> CHR ''0'' \<or> base = 10" by auto
    from select_base_decimal [OF assms(2) this base] have sb: "select_base base ds = (10, ds)" .
    from base have valid: "\<not> (base = 1 \<or> 36 < base)" by auto
    show ?thesis
      by (simp only: strtol_def valid if_False ss sb takeWhile_decimal [OF assms(2)] Let_def split)
        (simp add: assms(1))
  qed
qed

lemma strtol_negative_decimal:
  assumes "ds \<noteq> []" "list_all is_decimal_digit ds" "hd ds \<noteq> CHR ''0''"
    and base: "base = 0 \<or> base = 10"
  shows "strtol (CHR ''-'' # ds) base = Some (- int (digits_value 10 ds))"
proof -
  from assms(3) have "hd ds \<noteq> CHR ''0'' \<or> base = 10" by simp
  from select_base_decimal [OF assms(2) this base] have sb: "select_base base ds = (10, ds)" .
  have ss: "strip_sign (dropWhile isspace (CHR ''-'' # ds)) = (True, ds)"
    by (simp add: strip_sign_def isspace_def)
  from base have valid: "\<not> (base = 1 \<or> 36 < base)" by auto
  show ?thesis
    by (simp only: strtol_def valid if_False ss sb takeWhile_decimal [OF assms(2)] Let_def split)
      (simp add: assms(1))
qed

lemma canonical_literal_strtol:
  assumes "canonical_literal lo hi s" and base: "base = 0 \<or> base = 10"
  shows "\<exists>n. strtol s base = Some n \<and> lo \<le> n \<and> n \<le> hi \<and> to_string n = s"
proof (cases "\<exists>r. s = CHR ''-'' # r")
  case True
  then obtain r where s: "s = CHR ''-'' # r" by blast
  from assms s have r: "r \<noteq> []" "list_all is_decimal_digit r" "hd r \<noteq> CHR ''0''"
    and range: "lo \<le> - int (digits_value 10 r)" "- int (digits_value 10 r) \<le> hi"
    by (auto simp: canonical_literal_def Let_def split: list.splits)
  have dec: "decimal (digits_value 10 r) = r" using decimal_digits_value r by simp
  have "digits_value 10 r \<noteq> 0"
  proof
    assume "digits_value 10 r = 0"
    with dec have "r = ''0''" by (simp add: digit_char_def)
    with r(3) show False by simp
  qed
  then have neg: "- int (digits_value 10 r) < 0" by simp
  have "strtol s base = Some (- int (digits_value 10 r))"
    using strtol_negative_decimal [OF r base] s by simp
  moreover have "to_string (- int (digits_value 10 r)) = s"
    using neg dec s by (simp add: to_string_def)
  ultimately show ?thesis using range by blast
next
  case False
  with assms have r: "s \<noteq> []" "list_all is_decimal_digit s" "hd s = CHR ''0'' \<longrightarrow> s = ''0''"
    and range: "lo \<le> int (digits_value 10 s)" "int (digits_value 10 s) \<le> hi"
    by (auto simp: canonical_literal_def Let_def split: list.splits if_splits)
  have dec: "decimal (digits_value 10 s) = s" using decimal_digits_value r by simp
  have "strtol s base = Some (int (digits_value 10 s))"
    using strtol_unsigned_decimal [OF r base] .
  moreover have "to_string (int (digits_value 10 s)) = s"
    using dec by (simp add: to_string_def)
  ultimately show ?thesis using range by blast
qed

lemma digit_char_decimal:
  "d < 10 \<Longrightarrow> is_decimal_digit (digit_char d) \<and> digit_value (digit_char d) = Some d
     \<and> (digit_char d = CHR ''0'' \<longleftrightarrow> d = 0)"
proof -
  assume "d < 10"
  then have "d \<in> {0, 1, 2, 3, 4, 5, 6, 7, 8, 9}" by auto
  then show ?thesis
    by (auto simp: digit_char_def is_decimal_digit_def digit_value_def)
qed

lemma decimal_nonempty: "decimal n \<noteq> []"
  by (subst decimal.simps) simp

lemma decimal_digits: "list_all is_decimal_digit (decimal n)"
proof (induction n rule: decimal.induct)
  case (1 n)
  show ?case
  proof (cases "n < 10")
    case True
    then show ?thesis by (simp add: digit_char_decimal)
  next
    case False
    with 1 have "list_all is_decimal_digit (decimal (n div 10))" by simp
    moreover have "is_decimal_digit (digit_char (n mod 10))" by (simp add: digit_char_decimal)
    ultimately show ?thesis using False by (subst decimal.simps) simp
  qed
qed

lemma decimal_value: "digits_value 10 (decimal n) = n"
proof (induction n rule: decimal.induct)
  case (1 n)
  show ?case
  proof (cases "n < 10")
    case True
    then show ?thesis by (simp add: digits_value_def digit_char_decimal)
  next
    case False
    with 1 have "digits_value 10 (decimal (n div 10)) = n div 10" by simp
    then have "digits_value 10 (decimal (n div 10) @ [digit_char (n mod 10)]) = n div 10 * 10 + n mod 10"
      by (simp add: digits_value_snoc digit_char_decimal)
    with False show ?thesis by (subst decimal.simps) simp
  qed
qed

lemma decimal_hd: "hd (decimal n) = CHR ''0'' \<longleftrightarrow> n = 0"
proof (induction n rule: decimal.induct)
  case (1 n)
  show ?case
  proof (cases "n < 10")
    case True
    then show ?thesis by (simp add: digit_char_decimal)
  next
    case False
    with 1 have "hd (decimal (n div 10)) = CHR ''0'' \<longleftrightarrow> n div 10 = 0" by simp
    moreover from False have "n div 10 \<noteq> 0" by simp
    moreover have "hd (decimal (n div 10) @ [digit_char (n mod 10)]) = hd (decimal (n div 10))"
      by (simp add: decimal_nonempty)
    ultimately show ?thesis using False by (subst decimal.simps) simp
  qed
qed

lemma decimal_zero: "decimal 0 = ''0''"
  by (simp add: digit_char_def)

lemma decimal_canonical:
  "decimal n \<noteq> []" "list_all is_decimal_digit (decimal n)" "hd (decimal n) = CHR ''0'' \<longrightarrow> decimal n = ''0''"
  using decimal_nonempty decimal_digits decimal_hd [of n] decimal_zero by auto

lemma to_string_strtol:
  assumes base: "base = 0 \<or> base = 10"
  shows "strtol (to_string n) base = Some n"
proof (cases "n < 0")
  case True
  then have pos: "nat (- n) \<noteq> 0" by simp
  with decimal_hd [of "nat (- n)"] have "hd (decimal (nat (- n))) \<noteq> CHR ''0''"
    by (simp del: decimal.simps)
  from strtol_negative_decimal [OF decimal_nonempty decimal_digits this base] True
  show ?thesis by (simp add: to_string_def decimal_value del: decimal.simps)
next
  case False
  from strtol_unsigned_decimal [OF decimal_canonical base] False
  show ?thesis by (simp add: to_string_def decimal_value del: decimal.simps)
qed

lemma to_string_canonical:
  assumes "lo \<le> n" "n \<le> hi"
  shows "canonical_literal lo hi (to_string n)"
proof (cases "n < 0")
  case True
  then have pos: "nat (- n) \<noteq> 0" by simp
  with decimal_hd [of "nat (- n)"] have nz: "hd (decimal (nat (- n))) \<noteq> CHR ''0''"
    by (simp del: decimal.simps)
  obtain c r where cr: "decimal (nat (- n)) = c # r"
    using decimal_nonempty [of "nat (- n)"] by (cases "decimal (nat (- n))") auto
  with nz have "c \<noteq> CHR ''0''" by (simp del: decimal.simps)
  with True assms cr decimal_digits [of "nat (- n)"] decimal_value [of "nat (- n)"]
  show ?thesis by (simp add: canonical_literal_def to_string_def del: decimal.simps)
next
  case False
  obtain c r where cr: "decimal (nat n) = c # r"
    using decimal_nonempty [of "nat n"] by (cases "decimal (nat n)") auto
  from decimal_digits [of "nat n"] cr have "is_decimal_digit c" by (simp del: decimal.simps)
  then have c: "c \<noteq> CHR ''-''" by (simp add: is_decimal_digit_props)
  from decimal_canonical(3) [of "nat n"] cr have "c = CHR ''0'' \<longrightarrow> r = []"
    by (simp del: decimal.simps)
  with False assms cr c decimal_digits [of "nat n"] decimal_value [of "nat n"]
  show ?thesis by (simp add: canonical_literal_def to_string_def del: decimal.simps)
qed

text \<open>The scalar overloads on a canonical literal, for the bases 0 and 10.\<close>

lemma parse_int_canonical:
  assumes "canonical_int s" "base = 0 \<or> base = 10"
  shows "\<exists>n. parse_int [s] base = Inr n \<and> to_string n = s"
proof -
  from canonical_literal_strtol [OF assms(1) [unfolded canonical_int_def] assms(2)]
  obtain n where "strtol s base = Some n" "INT_MIN \<le> n" "n \<le> INT_MAX" "to_string n = s" by blast
  then show ?thesis by (simp add: parse_int_def stoi_def)
qed

lemma parse_integral_canonical:
  assumes "canonical_integral T s" "base = 0 \<or> base = 10"
  shows "\<exists>n. parse_integral T [s] base = Inr n \<and> to_string n = s"
proof -
  from canonical_literal_strtol [OF assms(1) [unfolded canonical_integral_def] assms(2)]
  obtain n where n: "strtol s base = Some n" "integral_min T \<le> n" "n \<le> integral_max T"
    "to_string n = s" by blast
  show ?thesis
  proof (cases T)
    case UnsignedInt
    with n show ?thesis
      by (simp add: parse_integral_def stoul_def UINT_MAX_def ULONG_MAX_def)
  next
    case UnsignedLong
    with n show ?thesis
      by (simp add: parse_integral_def stoul_def ULONG_MAX_def)
  next
    case UnsignedLongLong
    with n show ?thesis
      by (simp add: parse_integral_def stoull_def ULONG_MAX_def)
  next
    case LongLong
    with n show ?thesis
      by (simp add: parse_integral_def stoll_def LONG_MIN_def LONG_MAX_def)
  next
    case Long
    with n show ?thesis
      by (simp add: parse_integral_def stol_def LONG_MIN_def LONG_MAX_def)
  qed
qed

lemma parse_to_string:
  assumes "base = 0 \<or> base = 10"
  shows "INT_MIN \<le> n \<Longrightarrow> n \<le> INT_MAX \<Longrightarrow> parse_int [to_string n] base = Inr n"
    and "integral_min T \<le> n \<Longrightarrow> n \<le> integral_max T \<Longrightarrow> parse_integral T [to_string n] base = Inr n"
proof -
  note st = to_string_strtol [OF assms, of n]
  show "INT_MIN \<le> n \<Longrightarrow> n \<le> INT_MAX \<Longrightarrow> parse_int [to_string n] base = Inr n"
    using st by (simp add: parse_int_def stoi_def)
  show "integral_min T \<le> n \<Longrightarrow> n \<le> integral_max T \<Longrightarrow> parse_integral T [to_string n] base = Inr n"
    using st
    by (cases T) (simp_all add: parse_integral_def stoul_def stoull_def stol_def stoll_def
        UINT_MAX_def ULONG_MAX_def LONG_MIN_def LONG_MAX_def)
qed

text \<open>The literal \<^verbatim>\<open>10\<close> in a base other than ten.\<close>

lemma parse_ten:
  assumes "2 \<le> B" "B \<le> 36" "B \<noteq> 10"
  shows "parse_int [''10''] B = Inr (int B)" "to_string (int B) \<noteq> ''10''"
proof -
  have d: "is_digit_in B (CHR ''1'')" "is_digit_in B (CHR ''0'')"
    using assms(1) by (simp_all add: is_digit_in_def digit_value_def)
  have sb: "select_base B ''10'' = (B, ''10'')"
    using assms(1) by (simp add: select_base_def has_hex_prefix_def)
  have "strtol ''10'' B = Some (int B)"
    using assms(1,2) d
    by (simp add: strtol_def strip_sign_def isspace_def sb digits_value_def digit_value_def)
  with assms(2) show "parse_int [''10''] B = Inr (int B)"
    by (simp add: parse_int_def stoi_def INT_MIN_def INT_MAX_def)
  show "to_string (int B) \<noteq> ''10''"
  proof
    assume "to_string (int B) = ''10''"
    then have "decimal B = ''10''" by (simp add: to_string_def del: decimal.simps)
    moreover have "digits_value 10 ''10'' = 10" by (simp add: digits_value_def digit_value_def)
    ultimately have "digits_value 10 (decimal B) = 10" by (simp only:)
    then have "B = 10" unfolding decimal_value .
    with assms(3) show False by simp
  qed
qed

section \<open>Lemmas on the registry and on run\<close>

subsection \<open>Searching the registry\<close>

lemma first_index_Some:
  "first_index P xs = Some i \<Longrightarrow> i < length xs \<and> P (xs ! i) \<and> (\<forall>j<i. \<not> P (xs ! j))"
proof (induction xs arbitrary: i)
  case Nil
  then show ?case by simp
next
  case (Cons x xs)
  show ?case
  proof (cases "P x")
    case True
    with Cons.prems show ?thesis by simp
  next
    case False
    with Cons.prems obtain k where k: "first_index P xs = Some k" "i = Suc k" by auto
    from Cons.IH [OF k(1)] False k(2) show ?thesis
      by (auto simp: nth_Cons split: nat.splits)
  qed
qed

lemma first_index_None: "first_index P xs = None \<longleftrightarrow> (\<forall>x\<in>set xs. \<not> P x)"
  by (induction xs) auto

lemma first_index_cong:
  "list_all2 (\<lambda>x y. P x = P y) xs ys \<Longrightarrow> first_index P xs = first_index P ys"
  by (induction xs ys rule: list_all2_induct) auto

lemma same_flags_refl [simp]: "same_flags c c"
  by (simp add: same_flags_def)

lemma same_flags_trans: "same_flags a b \<Longrightarrow> same_flags b c \<Longrightarrow> same_flags a c"
  by (simp add: same_flags_def)

lemma find_cmd_same_flags:
  "list_all2 same_flags (p_commands p) (p_commands p') \<Longrightarrow> find_cmd p' t = find_cmd p t"
  unfolding find_cmd_def
  by (rule first_index_cong [symmetric]) (erule list_all2_mono, simp add: same_flags_def cmd_is_def)

lemma find_default_same_flags:
  "list_all2 same_flags (p_commands p) (p_commands p') \<Longrightarrow> find_default p' = find_default p"
  unfolding find_default_def
  by (rule first_index_cong [symmetric]) (erule list_all2_mono, simp add: same_flags_def)

lemma list_all2_update_right:
  assumes "\<And>x. R x x" and "i < length xs \<Longrightarrow> R (xs ! i) y"
  shows "list_all2 R xs (xs[i := y])"
  unfolding list_all2_conv_all_nth
proof (intro conjI allI impI)
  show "length xs = length (xs[i := y])" by simp
next
  fix k
  assume "k < length xs"
  then show "R (xs ! k) (xs[i := y] ! k)"
    using assms by (cases "k = i") simp_all
qed

lemma update_cmd_commands [simp]:
  "p_commands (update_cmd p i f) = (p_commands p)[i := f (p_commands p ! i)]"
  by (simp add: update_cmd_def)

lemma update_cmd_other [simp]:
  "p_arguments (update_cmd p i f) = p_arguments p"
  "p_appname (update_cmd p i f) = p_appname p"
  "p_general_help_text (update_cmd p i f) = p_general_help_text p"
  by (simp_all add: update_cmd_def)

lemma update_cmd_same_flags:
  "(\<And>c. same_flags c (f c)) \<Longrightarrow> list_all2 same_flags (p_commands p) (p_commands (update_cmd p i f))"
  by (simp add: list_all2_update_right)

lemma find_set_handled [simp]:
  "find_cmd (set_handled p i) t = find_cmd p t" "find_default (set_handled p i) = find_default p"
  unfolding set_handled_def
  by (rule find_cmd_same_flags find_default_same_flags, rule update_cmd_same_flags, simp add: same_flags_def)+

lemma find_push_argument [simp]:
  "find_cmd (push_argument p i a) t = find_cmd p t" "find_default (push_argument p i a) = find_default p"
  unfolding push_argument_def
  by (rule find_cmd_same_flags find_default_same_flags, rule update_cmd_same_flags, simp add: same_flags_def)+

lemma find_cmd_Some: "find_cmd p t = Some i \<Longrightarrow> i < length (p_commands p) \<and> cmd_is (p_commands p ! i) t"
  unfolding find_cmd_def by (drule first_index_Some) simp

lemma find_default_Some: "find_default p = Some i \<Longrightarrow> i < length (p_commands p) \<and> name (p_commands p ! i) = []"
  unfolding find_default_def by (drule first_index_Some) simp


subsection \<open>What the tokenizer writes\<close>

lemma tokenized_refl [simp]: "tokenized c c"
  by (simp add: tokenized_def)

lemma tokenized_trans: "tokenized a b \<Longrightarrow> tokenized b c \<Longrightarrow> tokenized a c"
  by (auto simp: tokenized_def intro: same_flags_trans)

lemma tokenized_set_handled:
  "list_all2 tokenized (p_commands p) (p_commands (set_handled p i))"
  unfolding set_handled_def update_cmd_commands
  by (rule list_all2_update_right) (simp_all add: tokenized_def same_flags_def)

lemma tokenized_push_argument:
  "list_all2 tokenized (p_commands p) (p_commands (push_argument p i a))"
  unfolding push_argument_def update_cmd_commands
  by (rule list_all2_update_right) (simp_all add: tokenized_def same_flags_def)

lemma list_all2_transitive:
  assumes "\<And>a b c. R a b \<Longrightarrow> R b c \<Longrightarrow> R a c"
  shows "list_all2 R xs ys \<Longrightarrow> list_all2 R ys zs \<Longrightarrow> list_all2 R xs zs"
  unfolding list_all2_conv_all_nth using assms by metis

lemma tokenized_list_trans:
  "list_all2 tokenized xs ys \<Longrightarrow> list_all2 tokenized ys zs \<Longrightarrow> list_all2 tokenized xs zs"
  by (rule list_all2_transitive [of tokenized]) (rule tokenized_trans)

lemma same_parser_updates [simp]:
  "same_parser p (set_handled p i)" "same_parser p (push_argument p i a)" "same_parser p p"
  by (simp_all add: same_parser_def set_handled_def push_argument_def)

lemma same_parser_trans: "same_parser a b \<Longrightarrow> same_parser b c \<Longrightarrow> same_parser a c"
  by (simp add: same_parser_def)

lemma tokenize_frame:
  "tokenize args current p st = Inr (b, p', st')
    \<Longrightarrow> list_all2 tokenized (p_commands p) (p_commands p') \<and> same_parser p p'"
proof (induction args arbitrary: current p)
  case Nil
  then show ?case by (simp add: list_all2_refl)
next
  case (Cons currArg rest)
  note push = tokenized_list_trans [OF tokenized_push_argument, OF tokenized_list_trans [OF tokenized_set_handled]]
    same_parser_trans [OF same_parser_updates(2), OF same_parser_trans [OF same_parser_updates(1)]]
  show ?case
  proof (cases "associated p currArg")
    case (Some a)
    with Cons.prems have "tokenize rest (Some a) (set_handled p a) st = Inr (b, p', st')"
      by simp
    from Cons.IH [OF this] show ?thesis
      using tokenized_list_trans [OF tokenized_set_handled] same_parser_trans [OF same_parser_updates(1)]
      by blast
  next
    case None
    note assoc = None
    show ?thesis
    proof (cases current)
      case None
      with assoc Cons.prems show ?thesis
        by (auto simp: list_all2_refl)
    next
      case (Some cur)
      show ?thesis
      proof (cases "variadic (p_commands p ! cur)")
        case True
        with assoc Some Cons.prems
        have "tokenize rest (Some cur) (set_handled (push_argument p cur currArg) cur) st = Inr (b, p', st')"
          by simp
        from Cons.IH [OF this] show ?thesis using push by blast
      next
        case False
        show ?thesis
        proof (cases "arguments (p_commands p ! cur) = []")
          case True
          with False assoc Some Cons.prems obtain d where
            rec: "tokenize rest (Some d) (set_handled (push_argument p cur currArg) d) st = Inr (b, p', st')"
            by (auto split: option.splits)
          from Cons.IH [OF rec] show ?thesis using push by blast
        next
          case nonempty: False
          with False assoc Some Cons.prems show ?thesis
            by (auto simp: list_all2_refl split: if_splits)
        qed
      qed
    qed
  qed
qed

subsection \<open>What a pass writes\<close>

lemma resolved_refl [simp]: "resolved dmn c c"
  by (simp add: resolved_def)

lemma resolved_props:
  assumes "resolved dmn c c'"
  shows "same_flags c c'" "handled c' = handled c" "arguments c' = arguments c"
    "is_argument c' = is_argument c" "uses_default c' = uses_default c"
    "cmd_value c' \<noteq> cmd_value c \<Longrightarrow> handled c \<and> dominant c = dmn \<and> \<not> uses_default c"
    "dominant c \<noteq> dmn \<Longrightarrow> c' = c" "\<not> handled c \<Longrightarrow> c' = c"
  using assms by (auto simp: resolved_def same_flags_def uses_default_def)

lemma resolvedE:
  assumes "resolved dmn c c'"
  obtains "c' = c"
  | d where "handled c" "dominant c = dmn" "\<not> uses_default c" "c' = c\<lparr>derived := d\<rparr>"
      "is_argument c' = is_argument c"
  using assms unfolding resolved_def by blast

lemma resolvedI:
  "handled c \<Longrightarrow> dominant c = dmn \<Longrightarrow> \<not> uses_default c \<Longrightarrow> c' = c\<lparr>derived := d\<rparr>
    \<Longrightarrow> is_argument c' = is_argument c \<Longrightarrow> resolved dmn c c'"
  unfolding resolved_def by blast

lemma resolved_trans:
  assumes ab: "resolved dmn a b" and bc: "resolved dmn b c"
  shows "resolved dmn a c"
  using ab
proof (cases rule: resolvedE)
  case 1
  with bc show ?thesis by simp
next
  case (2 d)
  note a = 2
  from bc show ?thesis
  proof (cases rule: resolvedE)
    case 1
    with ab show ?thesis by simp
  next
    case (2 d')
    have "c = a\<lparr>derived := d'\<rparr>" unfolding 2(4) a(4) by simp
    moreover have "is_argument c = is_argument a" using 2(5) a(5) by simp
    ultimately show ?thesis using a(1,2,3) by (rule resolvedI [rotated 3])
  qed
qed

lemma resolved_list_trans:
  "list_all2 (resolved dmn) xs ys \<Longrightarrow> list_all2 (resolved dmn) ys zs \<Longrightarrow> list_all2 (resolved dmn) xs zs"
  by (rule list_all2_transitive [of "resolved dmn"]) (rule resolved_trans)

lemma cmd_parse_frame:
  assumes "cmd_parse p c st = (b, c', st')"
  shows "c' = c \<or> (\<not> uses_default c \<and> (\<exists>d. c' = c\<lparr>derived := d\<rparr>) \<and> is_argument c' = is_argument c)"
proof (cases "derived c")
  case (CmdFunction cb v)
  with assms show ?thesis
    by (auto simp: cmd_parse_def CmdFunction_parse_def uses_default_def is_argument_def
        split: prod.splits sum.splits)
next
  case (CmdArgument v vf)
  with assms show ?thesis
    by (auto simp: cmd_parse_def CmdArgument_parse_def uses_default_def is_argument_def
        split: prod.splits sum.splits if_splits)
qed

lemma parse_and_validate_eq:
  assumes "parse_and_validate p i st = (b, p', st')"
  shows "p' = update_cmd p i (\<lambda>_. fst (snd (cmd_parse p (p_commands p ! i) st)))"
  using assms unfolding parse_and_validate_def
  by (auto split: prod.splits bool.splits)

lemma parse_and_validate_frame:
  assumes "parse_and_validate p i st = (b, p', st')"
    and "handled (p_commands p ! i)" "dominant (p_commands p ! i) = dmn"
  shows "list_all2 (resolved dmn) (p_commands p) (p_commands p') \<and> same_parser p p'"
proof -
  let ?c = "p_commands p ! i"
  obtain b0 c' st0 where cp: "cmd_parse p ?c st = (b0, c', st0)" by (cases "cmd_parse p ?c st") auto
  with parse_and_validate_eq [OF assms(1)] have p': "p' = update_cmd p i (\<lambda>_. c')" by simp
  from cmd_parse_frame [OF cp] assms(2,3) have "resolved dmn ?c c'"
    unfolding resolved_def by blast
  then have "list_all2 (resolved dmn) (p_commands p) ((p_commands p)[i := c'])"
    by (intro list_all2_update_right) simp_all
  with p' show ?thesis by (simp add: same_parser_def)
qed

lemma dominant_loop_frame:
  "dominant_loop idxs p st = (b, p', st')
    \<Longrightarrow> list_all2 (resolved True) (p_commands p) (p_commands p') \<and> same_parser p p'"
proof (induction idxs arbitrary: p st)
  case Nil
  then show ?case by (simp add: list_all2_refl)
next
  case (Cons i rest)
  show ?case
  proof (cases "handled (p_commands p ! i) \<and> dominant (p_commands p ! i)")
    case False
    with Cons show ?thesis by auto
  next
    case True
    obtain b1 p1 st1 where pv: "parse_and_validate p i st = (b1, p1, st1)"
      by (cases "parse_and_validate p i st") auto
    from parse_and_validate_frame [OF pv] True
    have step: "list_all2 (resolved True) (p_commands p) (p_commands p1)" "same_parser p p1" by auto
    show ?thesis
    proof (cases b1)
      case False
      with True pv Cons.prems step show ?thesis by auto
    next
      case b1: True
      with True pv Cons.prems have "dominant_loop rest p1 st1 = (b, p', st')" by simp
      from Cons.IH [OF this] step show ?thesis
        by (blast intro: resolved_list_trans same_parser_trans)
    qed
  qed
qed

lemma remaining_loop_frame:
  "remaining_loop idxs p st = (b, p', st')
    \<Longrightarrow> list_all2 (resolved False) (p_commands p) (p_commands p') \<and> same_parser p p'"
proof (induction idxs arbitrary: p st)
  case Nil
  then show ?case by (simp add: list_all2_refl)
next
  case (Cons i rest)
  show ?case
  proof (cases "handled (p_commands p ! i) \<and> \<not> dominant (p_commands p ! i)")
    case False
    with Cons show ?thesis by auto
  next
    case True
    obtain b1 p1 st1 where pv: "parse_and_validate p i st = (b1, p1, st1)"
      by (cases "parse_and_validate p i st") auto
    from parse_and_validate_frame [OF pv] True
    have step: "list_all2 (resolved False) (p_commands p) (p_commands p1)" "same_parser p p1" by auto
    show ?thesis
    proof (cases b1)
      case False
      with True pv Cons.prems step show ?thesis by auto
    next
      case b1: True
      with True pv Cons.prems have "remaining_loop rest p1 st1 = (b, p', st')" by simp
      from Cons.IH [OF this] step show ?thesis
        by (blast intro: resolved_list_trans same_parser_trans)
    qed
  qed
qed


subsection \<open>The whole of run\<close>

lemma tokenization_frame:
  assumes "tokenization p st = Inr (b, p1, st1)"
  shows "list_all2 tokenized (p_commands p) (p_commands p1)" "same_parser p p1"
  using assms tokenize_frame [of "p_arguments p" "find_default p" p st b p1 st1]
  by (auto simp: tokenization_def list_all2_refl split: if_splits)

lemma run_cases:
  assumes "run p st = Inr (b, p', st')"
  obtains (tokens) "tokenization p st = Inr (False, p', st')" "\<not> b"
  | (dominant) p1 st1 where "tokenization p st = Inr (True, p1, st1)"
      "dominant_loop [0..<length (p_commands p1)] p1 st1 = (False, p', st')" "\<not> b"
  | (required) p1 st1 st2 where "tokenization p st = Inr (True, p1, st1)"
      "dominant_loop [0..<length (p_commands p1)] p1 st1 = (True, p', st2)"
      "required_loop (p_commands p') st2 = (False, st')" "\<not> b"
  | (remaining) p1 st1 p2 st2 st3 where "tokenization p st = Inr (True, p1, st1)"
      "dominant_loop [0..<length (p_commands p1)] p1 st1 = (True, p2, st2)"
      "required_loop (p_commands p2) st2 = (True, st3)"
      "remaining_loop [0..<length (p_commands p2)] p2 st3 = (b, p', st')"
  using assms unfolding run_def
  by (auto split: sum.splits prod.splits bool.splits)

lemma run_frame:
  assumes "run p st = Inr (b, p', st')"
  obtains p1 p2 :: Parser where
    "list_all2 tokenized (p_commands p) (p_commands p1)"
    "list_all2 (resolved True) (p_commands p1) (p_commands p2)"
    "list_all2 (resolved False) (p_commands p2) (p_commands p')"
  using assms
proof (cases rule: run_cases)
  case tokens
  from tokenization_frame(1) [OF tokens(1)] that [of p' p'] show ?thesis
    by (simp add: list_all2_refl)
next
  case (dominant p1 st1)
  from tokenization_frame(1) [OF dominant(1)] dominant_loop_frame [OF dominant(2)] that [of p1 p']
  show ?thesis by (simp add: list_all2_refl)
next
  case (required p1 st1 st2)
  from tokenization_frame(1) [OF required(1)] dominant_loop_frame [OF required(2)] that [of p1 p']
  show ?thesis by (simp add: list_all2_refl)
next
  case (remaining p1 st1 p2 st2 st3)
  from tokenization_frame(1) [OF remaining(1)] dominant_loop_frame [OF remaining(2)]
    remaining_loop_frame [OF remaining(4)] that [of p1 p2]
  show ?thesis by simp
qed

lemma run_value_changed:
  assumes run: "run p st = Inr (b, p', st')" and i: "i < length (p_commands p)"
    and changed: "cmd_value (p_commands p' ! i) \<noteq> cmd_value (p_commands p ! i)"
  shows "handled (p_commands p' ! i) \<and> \<not> uses_default (p_commands p' ! i)"
proof -
  from run obtain p1 p2 :: Parser where
    t: "list_all2 tokenized (p_commands p) (p_commands p1)"
    and d: "list_all2 (resolved True) (p_commands p1) (p_commands p2)"
    and r: "list_all2 (resolved False) (p_commands p2) (p_commands p')"
    by (rule run_frame)
  let ?c = "p_commands p ! i" and ?c1 = "p_commands p1 ! i"
  let ?c2 = "p_commands p2 ! i" and ?c' = "p_commands p' ! i"
  from t i have t': "tokenized ?c ?c1" by (simp add: list_all2_conv_all_nth)
  from t d r i have d': "resolved True ?c1 ?c2" and r': "resolved False ?c2 ?c'"
    by (simp_all add: list_all2_conv_all_nth)
  from t' have "cmd_value ?c1 = cmd_value ?c" by (simp add: tokenized_def cmd_value_def)
  with changed have "cmd_value ?c2 \<noteq> cmd_value ?c1 \<or> cmd_value ?c' \<noteq> cmd_value ?c2" by auto
  then show ?thesis
  proof
    assume "cmd_value ?c2 \<noteq> cmd_value ?c1"
    from resolved_props(6) [OF d' this] resolved_props(2,5) [OF d'] resolved_props(2,5) [OF r']
    show ?thesis by simp
  next
    assume "cmd_value ?c' \<noteq> cmd_value ?c2"
    from resolved_props(6) [OF r' this] resolved_props(2,5) [OF r']
    show ?thesis by simp
  qed
qed

lemma run_static:
  assumes run: "run p st = Inr (b, p', st')" and i: "i < length (p_commands p)"
  shows "same_flags (p_commands p ! i) (p_commands p' ! i)"
    "is_argument (p_commands p' ! i) = is_argument (p_commands p ! i)"
    "length (p_commands p') = length (p_commands p)"
proof -
  from run obtain p1 p2 :: Parser where
    t: "list_all2 tokenized (p_commands p) (p_commands p1)"
    and d: "list_all2 (resolved True) (p_commands p1) (p_commands p2)"
    and r: "list_all2 (resolved False) (p_commands p2) (p_commands p')"
    by (rule run_frame)
  let ?c = "p_commands p ! i" and ?c1 = "p_commands p1 ! i"
  let ?c2 = "p_commands p2 ! i" and ?c' = "p_commands p' ! i"
  from t i have t': "tokenized ?c ?c1" by (simp add: list_all2_conv_all_nth)
  from t d r i have d': "resolved True ?c1 ?c2" and r': "resolved False ?c2 ?c'"
    by (simp_all add: list_all2_conv_all_nth)
  from t' resolved_props(1) [OF d'] resolved_props(1) [OF r']
  show "same_flags ?c ?c'" by (auto simp: tokenized_def intro: same_flags_trans)
  from t' resolved_props(4) [OF d'] resolved_props(4) [OF r']
  show "is_argument ?c' = is_argument ?c" by (simp add: tokenized_def is_argument_def)
  from t d r show "length (p_commands p') = length (p_commands p)"
    by (simp add: list_all2_lengthD)
qed

subsection \<open>Unfolding the example programs\<close>

lemmas registry_defs = Parser_argv_def init_def enable_help_def set_callback_def
  set_optional_def set_default_def set_required_def push_back_def new_CmdBase_def new_Parser_def

lemmas run_defs = run_def tokenization_def associated_def isarg_def find_cmd_def find_default_def
  cmd_is_def set_handled_def push_argument_def update_cmd_def parse_and_validate_def cmd_parse_def
  CmdArgument_parse_def CmdFunction_parse_def validate_def emit_def

lemma positional_flag_only:
  "run (positional_cli [''-n'']) empty_streams
     = Inr (True, set_handled (positional_cli [''-n'']) 2, empty_streams)"
  by (simp add: run_defs registry_defs positional_cli_def upt_rec)

subsection \<open>The passes, index by index\<close>

lemma dominant_loop_untouched:
  "dominant_loop idxs p st = (b, p', st') \<Longrightarrow> i \<notin> set idxs
    \<Longrightarrow> p_commands p' ! i = p_commands p ! i"
proof (induction idxs arbitrary: p st)
  case Nil
  then show ?case by simp
next
  case (Cons j rest)
  show ?case
  proof (cases "handled (p_commands p ! j) \<and> dominant (p_commands p ! j)")
    case False
    with Cons show ?thesis by auto
  next
    case True
    obtain b1 p1 st1 where pv: "parse_and_validate p j st = (b1, p1, st1)"
      by (cases "parse_and_validate p j st") auto
    from parse_and_validate_eq [OF pv] Cons.prems(2)
    have same: "p_commands p1 ! i = p_commands p ! i" by simp
    show ?thesis
    proof (cases b1)
      case False
      with True pv Cons.prems same show ?thesis by auto
    next
      case b1: True
      with True pv Cons.prems have "dominant_loop rest p1 st1 = (b, p', st')" by simp
      from Cons.IH [OF this] Cons.prems(2) same show ?thesis by simp
    qed
  qed
qed

lemma dominant_loop_failure:
  "dominant_loop idxs p st = (False, p', st')
    \<Longrightarrow> \<exists>i\<in>set idxs. \<exists>st''. handled (p_commands p' ! i) \<and> dominant (p_commands p' ! i)
          \<and> st' = emit st'' [] (invalid_arguments (p_commands p' ! i))"
proof (induction idxs arbitrary: p st)
  case Nil
  then show ?case by simp
next
  case (Cons j rest)
  show ?case
  proof (cases "handled (p_commands p ! j) \<and> dominant (p_commands p ! j)")
    case False
    with Cons.prems have "dominant_loop rest p st = (False, p', st')" by auto
    from Cons.IH [OF this] show ?thesis by auto
  next
    case True
    obtain b1 p1 st1 where pv: "parse_and_validate p j st = (b1, p1, st1)"
      by (cases "parse_and_validate p j st") auto
    show ?thesis
    proof (cases b1)
      case False
      with True pv Cons.prems have eq: "p' = p1" "st' = emit st1 [] (invalid_arguments (p_commands p1 ! j))"
        by auto
      from parse_and_validate_frame [OF pv] True
      have "list_all2 (resolved True) (p_commands p) (p_commands p1)" by simp
      then have "length (p_commands p1) = length (p_commands p)"
        and "j < length (p_commands p) \<Longrightarrow> resolved True (p_commands p ! j) (p_commands p1 ! j)"
        by (simp_all add: list_all2_conv_all_nth)
      moreover have "j \<ge> length (p_commands p) \<Longrightarrow> p_commands p1 ! j = p_commands p ! j"
        using parse_and_validate_eq [OF pv] by (simp add: list_update_beyond)
      ultimately have "handled (p_commands p1 ! j) \<and> dominant (p_commands p1 ! j)"
        using True resolved_props(1,2) [of True "p_commands p ! j" "p_commands p1 ! j"]
        by (cases "j < length (p_commands p)") (auto simp: same_flags_def)
      with eq show ?thesis by auto
    next
      case b1: True
      with True pv Cons.prems have "dominant_loop rest p1 st1 = (False, p', st')" by simp
      from Cons.IH [OF this] show ?thesis by auto
    qed
  qed
qed

lemma dominant_loop_append:
  "dominant_loop (xs @ ys) p st =
     (case dominant_loop xs p st of
        (False, q, s) \<Rightarrow> (False, q, s)
      | (True, q, s) \<Rightarrow> dominant_loop ys q s)"
  by (induction xs arbitrary: p st) (auto split: prod.splits bool.splits)

lemma upt_split: "i < n \<Longrightarrow> [0..<n] = [0..<i] @ i # [Suc i..<n]"
  by (metis upt_conv_Cons upt_add_eq_append le0 le_add_diff_inverse less_imp_le add_0)

lemma dominant_loop_at:
  assumes i: "i < length (p_commands p)"
    and h: "handled (p_commands p ! i) \<and> dominant (p_commands p ! i)"
    and before: "dominant_loop [0..<i] p st = (True, q, s)"
    and loop: "dominant_loop [0..<length (p_commands p)] p st = (b, p', st')"
  shows "p_commands p' ! i = fst (snd (cmd_parse q (p_commands p ! i) s))"
proof -
  let ?n = "length (p_commands p)"
  from loop before have loop': "dominant_loop (i # [Suc i..<?n]) q s = (b, p', st')"
    by (simp add: upt_split [OF i] dominant_loop_append)
  from dominant_loop_untouched [OF before, of i] have qi: "p_commands q ! i = p_commands p ! i" by simp
  from dominant_loop_frame [OF before] i have len: "i < length (p_commands q)"
    by (auto dest: list_all2_lengthD)
  obtain b1 p1 st1 where pv: "parse_and_validate q i s = (b1, p1, st1)"
    by (cases "parse_and_validate q i s") auto
  from parse_and_validate_eq [OF pv] qi len
  have p1: "p_commands p1 ! i = fst (snd (cmd_parse q (p_commands p ! i) s))" by simp
  show ?thesis
  proof (cases b1)
    case False
    with h qi pv loop' have "p' = p1" by auto
    with p1 show ?thesis by simp
  next
    case True
    with h qi pv loop' have "dominant_loop [Suc i..<?n] p1 st1 = (b, p', st')" by simp
    from dominant_loop_untouched [OF this, of i] p1 show ?thesis by simp
  qed
qed

lemma dominant_loop_aborted:
  assumes i: "i < length (p_commands p)"
    and before: "dominant_loop [0..<i] p st = (False, q, s)"
  shows "dominant_loop [0..<length (p_commands p)] p st = (False, q, s)"
  using before by (simp add: upt_split [OF i] dominant_loop_append)

lemma required_loop_first:
  "required_loop cs st =
     (case first_index (\<lambda>c. required c \<and> \<not> handled c) cs of
        None \<Rightarrow> (True, st)
      | Some k \<Rightarrow> (False, emit st [] (missing_required (cs ! k))))"
  by (induction cs) (auto split: option.splits)

lemma run_after_tokenization:
  assumes "tokenization p st = Inr (True, p1, st1)"
  obtains b and p2 :: Parser and p' st' where "run p st = Inr (b, p', st')"
    "list_all2 (resolved True) (p_commands p1) (p_commands p2)"
    "list_all2 (resolved False) (p_commands p2) (p_commands p')"
proof -
  obtain b2 p2 st2 where d: "dominant_loop [0..<length (p_commands p1)] p1 st1 = (b2, p2, st2)"
    by (cases "dominant_loop [0..<length (p_commands p1)] p1 st1") auto
  obtain b3 st3 where r: "required_loop (p_commands p2) st2 = (b3, st3)"
    by (cases "required_loop (p_commands p2) st2") auto
  obtain b4 p4 st4 where m: "remaining_loop [0..<length (p_commands p2)] p2 st3 = (b4, p4, st4)"
    by (cases "remaining_loop [0..<length (p_commands p2)] p2 st3") auto
  note df = dominant_loop_frame [OF d, THEN conjunct1]
  show ?thesis
  proof (cases "b2 \<and> b3")
    case True
    with assms d r m have "run p st = Inr (b4, p4, st4)" by (simp add: run_def)
    from that [OF this df] remaining_loop_frame [OF m] show ?thesis by simp
  next
    case False
    with assms d r have "\<exists>s. run p st = Inr (False, p2, s)"
      by (cases b2) (auto simp: run_def)
    then obtain s where "run p st = Inr (False, p2, s)" ..
    from that [OF this df] show ?thesis by (simp add: list_all2_refl)
  qed
qed


subsection \<open>Descriptors the tokenizer does not reach\<close>

lemma handled_set_handled:
  "i \<noteq> a \<Longrightarrow> handled (p_commands (set_handled p a) ! i) = handled (p_commands p ! i)"
  by (simp add: set_handled_def)

lemma handled_push_argument:
  "handled (p_commands (push_argument p a x) ! i) = handled (p_commands p ! i)"
  by (cases "i = a"; cases "a < length (p_commands p)")
     (simp_all add: push_argument_def list_update_beyond)

lemma cmd_is_set_handled:
  "cmd_is (p_commands (set_handled p a) ! i) t = cmd_is (p_commands p ! i) t"
  by (cases "i = a"; cases "a < length (p_commands p)")
     (simp_all add: set_handled_def cmd_is_def list_update_beyond)

lemma cmd_is_push_argument:
  "cmd_is (p_commands (push_argument p a x) ! i) t = cmd_is (p_commands p ! i) t"
  by (cases "i = a"; cases "a < length (p_commands p)")
     (simp_all add: push_argument_def cmd_is_def list_update_beyond)

lemma associated_Some: "associated p t = Some a \<Longrightarrow> isarg t \<and> cmd_is (p_commands p ! a) t"
  by (auto simp: associated_def dest: find_cmd_Some split: if_splits)

lemma tokenize_unhandled:
  assumes "tokenize args current p st = Inr (b, p', st')"
    and "\<not> handled (p_commands p ! i)" and "current \<noteq> Some i" and "find_default p \<noteq> Some i"
    and "\<forall>t\<in>set args. isarg t \<longrightarrow> \<not> cmd_is (p_commands p ! i) t"
  shows "\<not> handled (p_commands p' ! i)"
  using assms
proof (induction args arbitrary: current p)
  case Nil
  then show ?case by simp
next
  case (Cons currArg rest)
  from Cons.prems(5) have here: "isarg currArg \<longrightarrow> \<not> cmd_is (p_commands p ! i) currArg"
    and there: "\<forall>t\<in>set rest. isarg t \<longrightarrow> \<not> cmd_is (p_commands p ! i) t" by simp_all
  show ?case
  proof (cases "associated p currArg")
    case (Some a)
    with here have ai: "a \<noteq> i" using associated_Some by blast
    from Some Cons.prems(1) have rec: "tokenize rest (Some a) (set_handled p a) st = Inr (b, p', st')"
      by simp
    show ?thesis
      by (rule Cons.IH [OF rec])
        (use ai Cons.prems(2,4) there in \<open>simp_all add: handled_set_handled cmd_is_set_handled\<close>)
  next
    case None
    note assoc = None
    show ?thesis
    proof (cases current)
      case None
      with assoc Cons.prems show ?thesis by auto
    next
      case (Some cur)
      with Cons.prems(3) have ci: "cur \<noteq> i" by simp
      show ?thesis
      proof (cases "variadic (p_commands p ! cur)")
        case True
        with assoc Some Cons.prems(1)
        have rec: "tokenize rest (Some cur) (set_handled (push_argument p cur currArg) cur) st = Inr (b, p', st')"
          by simp
        show ?thesis
          by (rule Cons.IH [OF rec])
            (use ci Cons.prems(2,4) there in
              \<open>simp_all add: handled_set_handled handled_push_argument cmd_is_set_handled cmd_is_push_argument\<close>)
      next
        case False
        show ?thesis
        proof (cases "arguments (p_commands p ! cur) = []")
          case True
          with False assoc Some Cons.prems(1) obtain d where
            d: "find_default p = Some d"
            and rec: "tokenize rest (Some d) (set_handled (push_argument p cur currArg) d) st = Inr (b, p', st')"
            by (auto split: option.splits)
          from d Cons.prems(4) have di: "d \<noteq> i" by auto
          show ?thesis
            by (rule Cons.IH [OF rec])
              (use di Cons.prems(2,4) there in
                \<open>simp_all add: handled_set_handled handled_push_argument cmd_is_set_handled cmd_is_push_argument\<close>)
        next
          case nonempty: False
          with False assoc Some Cons.prems show ?thesis
            by (auto split: if_splits)
        qed
      qed
    qed
  qed
qed

lemma tokenization_unhandled:
  assumes "tokenization p st = Inr (b, p1, st1)"
    and "\<not> handled (p_commands p ! i)" and "find_default p \<noteq> Some i"
    and "\<forall>t\<in>set (p_arguments p). isarg t \<longrightarrow> \<not> cmd_is (p_commands p ! i) t"
  shows "\<not> handled (p_commands p1 ! i)"
proof (cases "length (p_arguments p) > 0")
  case True
  with assms(1) have "tokenize (p_arguments p) (find_default p) p st = Inr (b, p1, st1)"
    by (simp add: tokenization_def)
  from tokenize_unhandled [OF this assms(2) assms(3) assms(3) assms(4)] show ?thesis .
next
  case False
  with assms(1,2) show ?thesis by (simp add: tokenization_def)
qed

subsection \<open>Reading a descriptor after an update\<close>

lemma length_updates [simp]:
  "length (p_commands (set_handled p a)) = length (p_commands p)"
  "length (p_commands (push_argument p a x)) = length (p_commands p)"
  by (simp_all add: set_handled_def push_argument_def)

lemma variadic_updates [simp]:
  "variadic (p_commands (set_handled p a) ! i) = variadic (p_commands p ! i)"
  "variadic (p_commands (push_argument p a x) ! i) = variadic (p_commands p ! i)"
  by (cases "i = a"; cases "a < length (p_commands p)";
      simp add: set_handled_def push_argument_def list_update_beyond)+

lemma arguments_set_handled [simp]:
  "arguments (p_commands (set_handled p a) ! i) = arguments (p_commands p ! i)"
  by (cases "i = a"; cases "a < length (p_commands p)";
      simp add: set_handled_def list_update_beyond)

lemma arguments_push_argument:
  "a < length (p_commands p) \<Longrightarrow> arguments (p_commands (push_argument p a x) ! a) = arguments (p_commands p ! a) @ [x]"
  "i \<noteq> a \<Longrightarrow> arguments (p_commands (push_argument p a x) ! i) = arguments (p_commands p ! i)"
  by (simp_all add: push_argument_def)

lemma associated_updates [simp]:
  "associated (set_handled p a) t = associated p t"
  "associated (push_argument p a x) t = associated p t"
  by (simp_all add: associated_def)

lemma associated_SomeD:
  "associated p t = Some a \<Longrightarrow> a < length (p_commands p) \<and> isarg t \<and> find_cmd p t = Some a"
  by (auto simp: associated_def dest: find_cmd_Some split: if_splits)

lemma resolved_arguments:
  assumes "list_all2 (resolved dmn) (p_commands p) (p_commands p')" "i < length (p_commands p)"
  shows "arguments (p_commands p' ! i) = arguments (p_commands p ! i)"
    "handled (p_commands p' ! i) = handled (p_commands p ! i)"
  using assms resolved_props(2,3) [of dmn "p_commands p ! i" "p_commands p' ! i"]
  by (simp_all add: list_all2_conv_all_nth)

subsection \<open>An optional boolean descriptor\<close>

lemma optional_bool_parse:
  assumes "optional_bool x vf c"
  shows "fst (snd (cmd_parse p c st)) = c"
proof (cases "arguments c = []")
  case True
  with assms show ?thesis
    by (simp add: optional_bool_def cmd_parse_def CmdArgument_parse_def)
next
  case False
  then have "parse (arguments c) (VBool x)
      = Inl (runtime_error ''A boolean command line parameter cannot have any arguments.'')"
    by simp
  with assms False show ?thesis
    by (simp add: optional_bool_def cmd_parse_def CmdArgument_parse_def)
qed

lemma optional_bool_step:
  assumes "parse_and_validate p j st = (b, p', st')" and "optional_bool x vf (p_commands p ! i)"
  shows "p_commands p' ! i = p_commands p ! i"
proof (cases "j = i \<and> i < length (p_commands p)")
  case True
  with parse_and_validate_eq [OF assms(1)] optional_bool_parse [OF assms(2)] show ?thesis by simp
next
  case False
  with parse_and_validate_eq [OF assms(1)] show ?thesis
    by (cases "j = i") (simp_all add: list_update_beyond)
qed

lemma optional_bool_dominant_loop:
  "dominant_loop idxs p st = (b, p', st') \<Longrightarrow> optional_bool x vf (p_commands p ! i)
    \<Longrightarrow> p_commands p' ! i = p_commands p ! i"
proof (induction idxs arbitrary: p st)
  case Nil
  then show ?case by simp
next
  case (Cons j rest)
  show ?case
  proof (cases "handled (p_commands p ! j) \<and> dominant (p_commands p ! j)")
    case False
    with Cons show ?thesis by auto
  next
    case True
    obtain b1 p1 st1 where pv: "parse_and_validate p j st = (b1, p1, st1)"
      by (cases "parse_and_validate p j st") auto
    from optional_bool_step [OF pv Cons.prems(2)]
    have same: "p_commands p1 ! i = p_commands p ! i" .
    show ?thesis
    proof (cases b1)
      case False
      with True pv Cons.prems same show ?thesis by auto
    next
      case b1: True
      with True pv Cons.prems have "dominant_loop rest p1 st1 = (b, p', st')" by simp
      from Cons.IH [OF this] Cons.prems(2) same show ?thesis by simp
    qed
  qed
qed

lemma optional_bool_remaining_loop:
  "remaining_loop idxs p st = (b, p', st') \<Longrightarrow> optional_bool x vf (p_commands p ! i)
    \<Longrightarrow> p_commands p' ! i = p_commands p ! i"
proof (induction idxs arbitrary: p st)
  case Nil
  then show ?case by simp
next
  case (Cons j rest)
  show ?case
  proof (cases "handled (p_commands p ! j) \<and> \<not> dominant (p_commands p ! j)")
    case False
    with Cons show ?thesis by auto
  next
    case True
    obtain b1 p1 st1 where pv: "parse_and_validate p j st = (b1, p1, st1)"
      by (cases "parse_and_validate p j st") auto
    from optional_bool_step [OF pv Cons.prems(2)]
    have same: "p_commands p1 ! i = p_commands p ! i" .
    show ?thesis
    proof (cases b1)
      case False
      with True pv Cons.prems same show ?thesis by auto
    next
      case b1: True
      with True pv Cons.prems have "remaining_loop rest p1 st1 = (b, p', st')" by simp
      from Cons.IH [OF this] Cons.prems(2) same show ?thesis by simp
    qed
  qed
qed

subsection \<open>The example programs, evaluated\<close>

lemmas example_defs = positional_cli_def variadic_cli_def flag_only_cli_def bool_cli_def
  required_cli_def hex_cli_def dominant_cli_def

lemma dominant_tokenization:
  "tokenization (dominant_cli [''-d'']) empty_streams
     = Inr (True, set_handled (dominant_cli [''-d'']) 1, empty_streams)"
  by (simp add: run_defs registry_defs dominant_cli_def)

lemma bool_flag_only:
  "run (bool_cli [''-f'']) empty_streams = Inr (True, set_handled (bool_cli [''-f'']) 1, empty_streams)"
  by (simp add: run_defs registry_defs example_defs upt_rec)

subsection \<open>One step of a pass\<close>

lemma remaining_loop_untouched:
  "remaining_loop idxs p st = (b, p', st') \<Longrightarrow> i \<notin> set idxs
    \<Longrightarrow> p_commands p' ! i = p_commands p ! i"
proof (induction idxs arbitrary: p st)
  case Nil
  then show ?case by simp
next
  case (Cons j rest)
  show ?case
  proof (cases "handled (p_commands p ! j) \<and> \<not> dominant (p_commands p ! j)")
    case False
    with Cons show ?thesis by auto
  next
    case True
    obtain b1 p1 st1 where pv: "parse_and_validate p j st = (b1, p1, st1)"
      by (cases "parse_and_validate p j st") auto
    from parse_and_validate_eq [OF pv] Cons.prems(2)
    have same: "p_commands p1 ! i = p_commands p ! i" by simp
    show ?thesis
    proof (cases b1)
      case False
      with True pv Cons.prems same show ?thesis by auto
    next
      case b1: True
      with True pv Cons.prems have "remaining_loop rest p1 st1 = (b, p', st')" by simp
      from Cons.IH [OF this] Cons.prems(2) same show ?thesis by simp
    qed
  qed
qed

lemma remaining_loop_append:
  "remaining_loop (xs @ ys) p st =
     (case remaining_loop xs p st of
        (False, q, s) \<Rightarrow> (False, q, s)
      | (True, q, s) \<Rightarrow> remaining_loop ys q s)"
  by (induction xs arbitrary: p st) (auto split: prod.splits bool.splits)

lemma upt_prefix: "i < n \<Longrightarrow> [0..<n] = [0..<Suc i] @ [Suc i..<n]"
  using upt_add_eq_append [of 0 "Suc i" "n - Suc i"] by simp

lemma dominant_prefix:
  assumes "dominant_loop [0..<i] p1 st1 = (True, q, s)" and "i < length (p_commands p1)"
  shows "p_commands q ! i = p_commands p1 ! i" and "i < length (p_commands q)"
    and "dominant_loop [0..<Suc i] p1 st1 = dominant_loop [i] q s"
proof -
  from dominant_loop_untouched [OF assms(1), of i] show "p_commands q ! i = p_commands p1 ! i"
    by simp
  from dominant_loop_frame [OF assms(1)] assms(2) show "i < length (p_commands q)"
    by (auto dest: list_all2_lengthD)
  from assms(1) show "dominant_loop [0..<Suc i] p1 st1 = dominant_loop [i] q s"
    by (simp add: dominant_loop_append)
qed

lemma remaining_prefix:
  assumes "remaining_loop [0..<i] p2 st2 = (True, q, s)" and "i < length (p_commands p2)"
  shows "p_commands q ! i = p_commands p2 ! i" and "i < length (p_commands q)"
    and "remaining_loop [0..<Suc i] p2 st2 = remaining_loop [i] q s"
proof -
  from remaining_loop_untouched [OF assms(1), of i] show "p_commands q ! i = p_commands p2 ! i"
    by simp
  from remaining_loop_frame [OF assms(1)] assms(2) show "i < length (p_commands q)"
    by (auto dest: list_all2_lengthD)
  from assms(1) show "remaining_loop [0..<Suc i] p2 st2 = remaining_loop [i] q s"
    by (simp add: remaining_loop_append)
qed

lemma dominant_loop_stops:
  "i < n \<Longrightarrow> dominant_loop [0..<Suc i] p st = (False, q, s) \<Longrightarrow> dominant_loop [0..<n] p st = (False, q, s)"
  by (simp only: upt_prefix [of i n] dominant_loop_append) simp

lemma remaining_loop_stops:
  "i < n \<Longrightarrow> remaining_loop [0..<Suc i] p st = (False, q, s) \<Longrightarrow> remaining_loop [0..<n] p st = (False, q, s)"
  by (simp only: upt_prefix [of i n] remaining_loop_append) simp

text \<open>The outcomes of \<^verbatim>\<open>parse\<close> followed by \<^verbatim>\<open>validate\<close> for one descriptor.\<close>

lemma parse_and_validate_outcomes:
  assumes "i < length (p_commands q)"
  shows "cmd_parse q (p_commands q ! i) s = (False, c', s')
           \<Longrightarrow> parse_and_validate q i s = (False, update_cmd q i (\<lambda>_. c'), s')"
    and "cmd_parse q (p_commands q ! i) s = (True, c', s') \<Longrightarrow> validate c' s' = (ok, s'')
           \<Longrightarrow> parse_and_validate q i s = (ok, update_cmd q i (\<lambda>_. c'), s'')"
    and "p_commands (update_cmd q i (\<lambda>_. c')) ! i = c'"
  using assms by (simp_all add: parse_and_validate_def update_cmd_def)

lemma validate_hook:
  "derived c = CmdArgument v (Some valFun) \<Longrightarrow> valFun v = (out, err, ok)
    \<Longrightarrow> validate c s = (ok, emit s out err)"
  by (simp add: validate_def)

lemma validate_no_hook:
  "derived c = CmdArgument v None \<or> derived c = CmdFunction cb v \<Longrightarrow> validate c s = (True, s)"
  by (auto simp: validate_def)

lemma dominant_entry:
  assumes "i < length (p_commands q)" "handled (p_commands q ! i)" "dominant (p_commands q ! i)"
  shows "cmd_parse q (p_commands q ! i) s = (False, c', s')
           \<Longrightarrow> dominant_loop [i] q s
               = (False, update_cmd q i (\<lambda>_. c'), emit s' [] (invalid_arguments c'))"
    and "cmd_parse q (p_commands q ! i) s = (True, c', s') \<Longrightarrow> validate c' s' = (False, s'')
           \<Longrightarrow> dominant_loop [i] q s
               = (False, update_cmd q i (\<lambda>_. c'), emit s'' [] (invalid_arguments c'))"
    and "cmd_parse q (p_commands q ! i) s = (True, c', s') \<Longrightarrow> validate c' s' = (True, s'')
           \<Longrightarrow> dominant_loop [i] q s = (True, update_cmd q i (\<lambda>_. c'), s'')"
proof -
  note o = parse_and_validate_outcomes [OF assms(1)]
  show "dominant_loop [i] q s = (False, update_cmd q i (\<lambda>_. c'), emit s' [] (invalid_arguments c'))"
    if "cmd_parse q (p_commands q ! i) s = (False, c', s')"
    using assms(2,3) o(1) [OF that] o(3) by simp
  show "dominant_loop [i] q s = (False, update_cmd q i (\<lambda>_. c'), emit s'' [] (invalid_arguments c'))"
    if "cmd_parse q (p_commands q ! i) s = (True, c', s')" "validate c' s' = (False, s'')"
    using assms(2,3) o(2) [OF that] o(3) by simp
  show "dominant_loop [i] q s = (True, update_cmd q i (\<lambda>_. c'), s'')"
    if "cmd_parse q (p_commands q ! i) s = (True, c', s')" "validate c' s' = (True, s'')"
    using assms(2,3) o(2) [OF that] by simp
qed

lemma remaining_entry:
  assumes "i < length (p_commands q)" "handled (p_commands q ! i)" "\<not> dominant (p_commands q ! i)"
  shows "cmd_parse q (p_commands q ! i) s = (False, c', s')
           \<Longrightarrow> remaining_loop [i] q s
               = (False, update_cmd q i (\<lambda>_. c'), emit s' [] (invalid_arguments c'))"
    and "cmd_parse q (p_commands q ! i) s = (True, c', s') \<Longrightarrow> validate c' s' = (False, s'')
           \<Longrightarrow> remaining_loop [i] q s
               = (False, update_cmd q i (\<lambda>_. c'), emit s'' [] (invalid_arguments c'))"
    and "cmd_parse q (p_commands q ! i) s = (True, c', s') \<Longrightarrow> validate c' s' = (True, s'')
           \<Longrightarrow> remaining_loop [i] q s = (True, update_cmd q i (\<lambda>_. c'), s'')"
proof -
  note o = parse_and_validate_outcomes [OF assms(1)]
  show "remaining_loop [i] q s = (False, update_cmd q i (\<lambda>_. c'), emit s' [] (invalid_arguments c'))"
    if "cmd_parse q (p_commands q ! i) s = (False, c', s')"
    using assms(2,3) o(1) [OF that] o(3) by simp
  show "remaining_loop [i] q s = (False, update_cmd q i (\<lambda>_. c'), emit s'' [] (invalid_arguments c'))"
    if "cmd_parse q (p_commands q ! i) s = (True, c', s')" "validate c' s' = (False, s'')"
    using assms(2,3) o(2) [OF that] o(3) by simp
  show "remaining_loop [i] q s = (True, update_cmd q i (\<lambda>_. c'), s'')"
    if "cmd_parse q (p_commands q ! i) s = (True, c', s')" "validate c' s' = (True, s'')"
    using assms(2,3) o(2) [OF that] by simp
qed

lemma required_loop_missing:
  "k < length cs \<Longrightarrow> required (cs ! k) \<Longrightarrow> \<not> handled (cs ! k)
    \<Longrightarrow> \<forall>j<k. required (cs ! j) \<longrightarrow> handled (cs ! j)
    \<Longrightarrow> required_loop cs st = (False, emit st [] (missing_required (cs ! k)))"
proof (induction cs arbitrary: k)
  case Nil
  then show ?case by simp
next
  case (Cons c cs)
  show ?case
  proof (cases k)
    case 0
    with Cons.prems show ?thesis by simp
  next
    case (Suc k')
    with Cons.prems(4) have "required c \<longrightarrow> handled c" by auto
    moreover from Suc Cons.prems have "required_loop cs st = (False, emit st [] (missing_required (cs ! k')))"
      by (intro Cons.IH) auto
    ultimately show ?thesis using Suc by auto
  qed
qed

lemma required_loop_none:
  "\<forall>k<length cs. required (cs ! k) \<longrightarrow> handled (cs ! k) \<Longrightarrow> required_loop cs st = (True, st)"
proof (induction cs)
  case Nil
  then show ?case by simp
next
  case (Cons c cs)
  from Cons.prems have "required c \<longrightarrow> handled c" by auto
  moreover from Cons.prems have "\<forall>k<length cs. required (cs ! k) \<longrightarrow> handled (cs ! k)" by auto
  ultimately show ?case using Cons.IH by auto
qed

subsection \<open>The passes inside \<^verbatim>\<open>run\<close>\<close>

lemma after_dominant_pass:
  assumes "dominant_loop idxs p1 st1 = (b, p2, st2)" and "i < length (p_commands p1)"
  shows "length (p_commands p2) = length (p_commands p1)"
    and "handled (p_commands p2 ! i) = handled (p_commands p1 ! i)"
    and "dominant (p_commands p2 ! i) = dominant (p_commands p1 ! i)"
    and "required (p_commands p2 ! i) = required (p_commands p1 ! i)"
    and "\<not> dominant (p_commands p1 ! i) \<or> \<not> handled (p_commands p1 ! i)
           \<Longrightarrow> p_commands p2 ! i = p_commands p1 ! i"
proof -
  from dominant_loop_frame [OF assms(1)] assms(2)
  have r: "resolved True (p_commands p1 ! i) (p_commands p2 ! i)"
    and len: "length (p_commands p2) = length (p_commands p1)"
    by (simp_all add: list_all2_conv_all_nth)
  show "length (p_commands p2) = length (p_commands p1)" by (rule len)
  from resolved_props(1,2) [OF r]
  show "handled (p_commands p2 ! i) = handled (p_commands p1 ! i)"
    and "dominant (p_commands p2 ! i) = dominant (p_commands p1 ! i)"
    and "required (p_commands p2 ! i) = required (p_commands p1 ! i)"
    by (simp_all add: same_flags_def)
  show "p_commands p2 ! i = p_commands p1 ! i"
    if "\<not> dominant (p_commands p1 ! i) \<or> \<not> handled (p_commands p1 ! i)"
    using that resolved_props(7,8) [OF r] by auto
qed

lemma run_dominant_stops:
  assumes "tokenization p st = Inr (True, p1, st1)" and "i < length (p_commands p1)"
    and "dominant_loop [0..<Suc i] p1 st1 = (False, r, t)"
  shows "run p st = Inr (False, r, t)"
  using assms(1) dominant_loop_stops [OF assms(2,3)] by (simp add: run_def)

lemma run_required_missing:
  assumes tok: "tokenization p st = Inr (True, p1, st1)"
    and dom: "dominant_loop [0..<length (p_commands p1)] p1 st1 = (True, p2, st2)"
    and k: "k < length (p_commands p1)"
    and req: "required (p_commands p1 ! k)" "\<not> handled (p_commands p1 ! k)"
    and first: "\<forall>j<k. required (p_commands p1 ! j) \<longrightarrow> handled (p_commands p1 ! j)"
  shows "run p st = Inr (False, p2, emit st2 [] (missing_required (p_commands p1 ! k)))"
proof -
  note a = after_dominant_pass [OF dom]
  from a(1) [OF k] k have k2: "k < length (p_commands p2)" by simp
  from a(5) [OF k] req(2) have same: "p_commands p2 ! k = p_commands p1 ! k" by simp
  have "\<forall>j<k. required (p_commands p2 ! j) \<longrightarrow> handled (p_commands p2 ! j)"
    using first k a(2,4) by (metis less_trans)
  from required_loop_missing [OF k2 _ _ this, of st2] req same
  have "required_loop (p_commands p2) st2 = (False, emit st2 [] (missing_required (p_commands p1 ! k)))"
    by simp
  with tok dom show ?thesis by (simp add: run_def)
qed

lemma run_reaches_remaining:
  assumes tok: "tokenization p st = Inr (True, p1, st1)"
    and dom: "dominant_loop [0..<length (p_commands p1)] p1 st1 = (True, p2, st2)"
    and none: "\<forall>k<length (p_commands p1). required (p_commands p1 ! k) \<longrightarrow> handled (p_commands p1 ! k)"
  shows "run p st = Inr (remaining_loop [0..<length (p_commands p1)] p2 st2)"
proof -
  note a = after_dominant_pass [OF dom]
  have len: "length (p_commands p2) = length (p_commands p1)"
  proof (cases "p_commands p1")
    case Nil
    with dominant_loop_frame [OF dom] show ?thesis by (auto dest: list_all2_lengthD)
  next
    case (Cons c cs)
    then have "0 < length (p_commands p1)" by simp
    from a(1) [OF this] show ?thesis .
  qed
  have "\<forall>k<length (p_commands p2). required (p_commands p2 ! k) \<longrightarrow> handled (p_commands p2 ! k)"
    using none a(2,4) len by simp
  from required_loop_none [OF this, of st2] tok dom len show ?thesis by (simp add: run_def)
qed

lemma run_remaining_stops:
  assumes tok: "tokenization p st = Inr (True, p1, st1)"
    and dom: "dominant_loop [0..<length (p_commands p1)] p1 st1 = (True, p2, st2)"
    and none: "\<forall>k<length (p_commands p1). required (p_commands p1 ! k) \<longrightarrow> handled (p_commands p1 ! k)"
    and i: "i < length (p_commands p1)"
    and stop: "remaining_loop [0..<Suc i] p2 st2 = (False, r, t)"
  shows "run p st = Inr (False, r, t)"
  using run_reaches_remaining [OF tok dom none] remaining_loop_stops [OF i stop] by simp

subsection \<open>The first pass, one descriptor at a time\<close>

lemma dominant_pass_skips:
  assumes "i < length (p_commands p1)" and "dominant_loop [0..<i] p1 st1 = (True, q, s)"
    and "\<not> (handled (p_commands p1 ! i) \<and> dominant (p_commands p1 ! i))"
  shows "dominant_loop [0..<Suc i] p1 st1 = (True, q, s)"
  using dominant_prefix [OF assms(2,1)] assms(3) by auto

lemma dominant_pass_continues:
  assumes i: "i < length (p_commands p1)" and pre: "dominant_loop [0..<i] p1 st1 = (True, q, s)"
    and h: "handled (p_commands p1 ! i)" "dominant (p_commands p1 ! i)"
    and cp: "cmd_parse q (p_commands p1 ! i) s = (True, c', s')"
    and v: "validate c' s' = (True, s'')"
  shows "dominant_loop [0..<Suc i] p1 st1 = (True, update_cmd q i (\<lambda>_. c'), s'')"
proof -
  note d = dominant_prefix [OF pre i]
  from dominant_entry(3) [OF d(2), of s c' s' s''] h cp v d(1,3) show ?thesis by simp
qed

lemma dominant_pass_parse_fails:
  assumes tok: "tokenization p st = Inr (True, p1, st1)"
    and i: "i < length (p_commands p1)" and pre: "dominant_loop [0..<i] p1 st1 = (True, q, s)"
    and h: "handled (p_commands p1 ! i)" "dominant (p_commands p1 ! i)"
    and cp: "cmd_parse q (p_commands p1 ! i) s = (False, c', s')"
  shows "run p st = Inr (False, update_cmd q i (\<lambda>_. c'), emit s' [] (invalid_arguments c'))"
proof -
  note d = dominant_prefix [OF pre i]
  from dominant_entry(1) [OF d(2), of s c' s'] h cp d(1,3)
  have "dominant_loop [0..<Suc i] p1 st1
      = (False, update_cmd q i (\<lambda>_. c'), emit s' [] (invalid_arguments c'))" by simp
  from run_dominant_stops [OF tok i this] show ?thesis .
qed

lemma dominant_pass_validate_fails:
  assumes tok: "tokenization p st = Inr (True, p1, st1)"
    and i: "i < length (p_commands p1)" and pre: "dominant_loop [0..<i] p1 st1 = (True, q, s)"
    and h: "handled (p_commands p1 ! i)" "dominant (p_commands p1 ! i)"
    and cp: "cmd_parse q (p_commands p1 ! i) s = (True, c', s')"
    and v: "validate c' s' = (False, s'')"
  shows "run p st = Inr (False, update_cmd q i (\<lambda>_. c'), emit s'' [] (invalid_arguments c'))"
proof -
  note d = dominant_prefix [OF pre i]
  from dominant_entry(2) [OF d(2), of s c' s' s''] h cp v d(1,3)
  have "dominant_loop [0..<Suc i] p1 st1
      = (False, update_cmd q i (\<lambda>_. c'), emit s'' [] (invalid_arguments c'))" by simp
  from run_dominant_stops [OF tok i this] show ?thesis .
qed

lemma dominant_pass_hook_rejects:
  assumes tok: "tokenization p st = Inr (True, p1, st1)"
    and i: "i < length (p_commands p1)" and pre: "dominant_loop [0..<i] p1 st1 = (True, q, s)"
    and h: "handled (p_commands p1 ! i)" "dominant (p_commands p1 ! i)"
    and cp: "cmd_parse q (p_commands p1 ! i) s = (True, c', s')"
    and hook: "derived c' = CmdArgument v (Some valFun)" "valFun v = (out, err, False)"
  shows "run p st
    = Inr (False, update_cmd q i (\<lambda>_. c'), emit (emit s' out err) [] (invalid_arguments c'))"
  using dominant_pass_validate_fails [OF tok i pre h cp validate_hook [OF hook]] .

lemma dominant_pass_hook_accepts:
  assumes i: "i < length (p_commands p1)" and pre: "dominant_loop [0..<i] p1 st1 = (True, q, s)"
    and h: "handled (p_commands p1 ! i)" "dominant (p_commands p1 ! i)"
    and cp: "cmd_parse q (p_commands p1 ! i) s = (True, c', s')"
    and hook: "derived c' = CmdArgument v (Some valFun)" "valFun v = (out, err, True)"
  shows "dominant_loop [0..<Suc i] p1 st1 = (True, update_cmd q i (\<lambda>_. c'), emit s' out err)"
  using dominant_pass_continues [OF i pre h cp validate_hook [OF hook]] .

lemma dominant_pass_no_hook:
  assumes i: "i < length (p_commands p1)" and pre: "dominant_loop [0..<i] p1 st1 = (True, q, s)"
    and h: "handled (p_commands p1 ! i)" "dominant (p_commands p1 ! i)"
    and cp: "cmd_parse q (p_commands p1 ! i) s = (True, c', s')"
    and hook: "derived c' = CmdArgument v None \<or> derived c' = CmdFunction cb v"
  shows "dominant_loop [0..<Suc i] p1 st1 = (True, update_cmd q i (\<lambda>_. c'), s')"
  using dominant_pass_continues [OF i pre h cp validate_no_hook [OF hook]] .

lemma dominant_pass_kept:
  assumes tok: "tokenization p st = Inr (True, p1, st1)"
    and i: "i < length (p_commands p1)" and pre: "dominant_loop [0..<i] p1 st1 = (True, q, s)"
    and h: "handled (p_commands p1 ! i)" "dominant (p_commands p1 ! i)"
    and cp: "cmd_parse q (p_commands p1 ! i) s = (b, c', s')"
  shows "\<exists>b' p' st'. run p st = Inr (b', p', st') \<and> p_commands p' ! i = c'"
proof -
  let ?n = "length (p_commands p1)"
  obtain b2 p2 st2 where d: "dominant_loop [0..<?n] p1 st1 = (b2, p2, st2)"
    by (cases "dominant_loop [0..<?n] p1 st1") auto
  from dominant_loop_at [OF i _ pre d] h cp have at: "p_commands p2 ! i = c'" by simp
  from tok obtain b' and r :: Parser and p' st' where run: "run p st = Inr (b', p', st')"
    and one: "list_all2 (resolved True) (p_commands p1) (p_commands r)"
    and two: "list_all2 (resolved False) (p_commands r) (p_commands p')"
    by (rule run_after_tokenization)
  show ?thesis
  proof (cases b2)
    case False
    with tok d have "run p st = Inr (False, p2, st2)" by (simp add: run_def)
    with at show ?thesis by blast
  next
    case True
    obtain b3 st3 where rq: "required_loop (p_commands p2) st2 = (b3, st3)"
      by (cases "required_loop (p_commands p2) st2") auto
    show ?thesis
    proof (cases b3)
      case False
      with True tok d rq have "run p st = Inr (False, p2, st3)" by (simp add: run_def)
      with at show ?thesis by blast
    next
      case b3: True
      obtain b4 p4 st4 where m: "remaining_loop [0..<length (p_commands p2)] p2 st3 = (b4, p4, st4)"
        by (cases "remaining_loop [0..<length (p_commands p2)] p2 st3") auto
      with True b3 tok d rq have run4: "run p st = Inr (b4, p4, st4)" by (simp add: run_def)
      note a = after_dominant_pass [OF d i]
      from remaining_loop_frame [OF m] i a(1)
      have "resolved False (p_commands p2 ! i) (p_commands p4 ! i)"
        by (simp add: list_all2_conv_all_nth)
      from resolved_props(7) [OF this] a(3) h(2) have "p_commands p4 ! i = p_commands p2 ! i" by simp
      with run4 at show ?thesis by simp
    qed
  qed
qed

subsection \<open>The third pass, one descriptor at a time\<close>

lemma remaining_pass_skips:
  assumes dom: "dominant_loop [0..<length (p_commands p1)] p1 st1 = (True, p2, st2)"
    and i: "i < length (p_commands p1)" and pre: "remaining_loop [0..<i] p2 st2 = (True, q, s)"
    and h: "\<not> (handled (p_commands p1 ! i) \<and> \<not> dominant (p_commands p1 ! i))"
  shows "remaining_loop [0..<Suc i] p2 st2 = (True, q, s)"
proof -
  note a = after_dominant_pass [OF dom i]
  from i a(1) have i2: "i < length (p_commands p2)" by simp
  from remaining_prefix [OF pre i2] a(2,3) h show ?thesis by auto
qed

lemma remaining_pass_continues:
  assumes dom: "dominant_loop [0..<length (p_commands p1)] p1 st1 = (True, p2, st2)"
    and i: "i < length (p_commands p1)" and pre: "remaining_loop [0..<i] p2 st2 = (True, q, s)"
    and h: "handled (p_commands p1 ! i)" "\<not> dominant (p_commands p1 ! i)"
    and cp: "cmd_parse q (p_commands p1 ! i) s = (True, c', s')"
    and v: "validate c' s' = (True, s'')"
  shows "remaining_loop [0..<Suc i] p2 st2 = (True, update_cmd q i (\<lambda>_. c'), s'')"
proof -
  note a = after_dominant_pass [OF dom i]
  from i a(1) have i2: "i < length (p_commands p2)" by simp
  note d = remaining_prefix [OF pre i2]
  from a(5) h(2) d(1) have same: "p_commands q ! i = p_commands p1 ! i" by simp
  from remaining_entry(3) [OF d(2), of s c' s' s''] h cp v same d(3) show ?thesis by simp
qed

lemma remaining_pass_parse_fails:
  assumes tok: "tokenization p st = Inr (True, p1, st1)"
    and dom: "dominant_loop [0..<length (p_commands p1)] p1 st1 = (True, p2, st2)"
    and none: "\<forall>k<length (p_commands p1). required (p_commands p1 ! k) \<longrightarrow> handled (p_commands p1 ! k)"
    and i: "i < length (p_commands p1)" and pre: "remaining_loop [0..<i] p2 st2 = (True, q, s)"
    and h: "handled (p_commands p1 ! i)" "\<not> dominant (p_commands p1 ! i)"
    and cp: "cmd_parse q (p_commands p1 ! i) s = (False, c', s')"
  shows "run p st = Inr (False, update_cmd q i (\<lambda>_. c'), emit s' [] (invalid_arguments c'))"
proof -
  note a = after_dominant_pass [OF dom i]
  from i a(1) have i2: "i < length (p_commands p2)" by simp
  note d = remaining_prefix [OF pre i2]
  from a(5) h(2) d(1) have same: "p_commands q ! i = p_commands p1 ! i" by simp
  from remaining_entry(1) [OF d(2), of s c' s'] h cp same d(3)
  have "remaining_loop [0..<Suc i] p2 st2
      = (False, update_cmd q i (\<lambda>_. c'), emit s' [] (invalid_arguments c'))" by simp
  from run_remaining_stops [OF tok dom none i this] show ?thesis .
qed

lemma remaining_pass_validate_fails:
  assumes tok: "tokenization p st = Inr (True, p1, st1)"
    and dom: "dominant_loop [0..<length (p_commands p1)] p1 st1 = (True, p2, st2)"
    and none: "\<forall>k<length (p_commands p1). required (p_commands p1 ! k) \<longrightarrow> handled (p_commands p1 ! k)"
    and i: "i < length (p_commands p1)" and pre: "remaining_loop [0..<i] p2 st2 = (True, q, s)"
    and h: "handled (p_commands p1 ! i)" "\<not> dominant (p_commands p1 ! i)"
    and cp: "cmd_parse q (p_commands p1 ! i) s = (True, c', s')"
    and v: "validate c' s' = (False, s'')"
  shows "run p st = Inr (False, update_cmd q i (\<lambda>_. c'), emit s'' [] (invalid_arguments c'))"
proof -
  note a = after_dominant_pass [OF dom i]
  from i a(1) have i2: "i < length (p_commands p2)" by simp
  note d = remaining_prefix [OF pre i2]
  from a(5) h(2) d(1) have same: "p_commands q ! i = p_commands p1 ! i" by simp
  from remaining_entry(2) [OF d(2), of s c' s' s''] h cp v same d(3)
  have "remaining_loop [0..<Suc i] p2 st2
      = (False, update_cmd q i (\<lambda>_. c'), emit s'' [] (invalid_arguments c'))" by simp
  from run_remaining_stops [OF tok dom none i this] show ?thesis .
qed

lemma remaining_pass_hook_rejects:
  assumes tok: "tokenization p st = Inr (True, p1, st1)"
    and dom: "dominant_loop [0..<length (p_commands p1)] p1 st1 = (True, p2, st2)"
    and none: "\<forall>k<length (p_commands p1). required (p_commands p1 ! k) \<longrightarrow> handled (p_commands p1 ! k)"
    and i: "i < length (p_commands p1)" and pre: "remaining_loop [0..<i] p2 st2 = (True, q, s)"
    and h: "handled (p_commands p1 ! i)" "\<not> dominant (p_commands p1 ! i)"
    and cp: "cmd_parse q (p_commands p1 ! i) s = (True, c', s')"
    and hook: "derived c' = CmdArgument v (Some valFun)" "valFun v = (out, err, False)"
  shows "run p st
    = Inr (False, update_cmd q i (\<lambda>_. c'), emit (emit s' out err) [] (invalid_arguments c'))"
  using remaining_pass_validate_fails [OF tok dom none i pre h cp validate_hook [OF hook]] .

lemma remaining_pass_hook_accepts:
  assumes dom: "dominant_loop [0..<length (p_commands p1)] p1 st1 = (True, p2, st2)"
    and i: "i < length (p_commands p1)" and pre: "remaining_loop [0..<i] p2 st2 = (True, q, s)"
    and h: "handled (p_commands p1 ! i)" "\<not> dominant (p_commands p1 ! i)"
    and cp: "cmd_parse q (p_commands p1 ! i) s = (True, c', s')"
    and hook: "derived c' = CmdArgument v (Some valFun)" "valFun v = (out, err, True)"
  shows "remaining_loop [0..<Suc i] p2 st2 = (True, update_cmd q i (\<lambda>_. c'), emit s' out err)"
  using remaining_pass_continues [OF dom i pre h cp validate_hook [OF hook]] .

lemma remaining_pass_no_hook:
  assumes dom: "dominant_loop [0..<length (p_commands p1)] p1 st1 = (True, p2, st2)"
    and i: "i < length (p_commands p1)" and pre: "remaining_loop [0..<i] p2 st2 = (True, q, s)"
    and h: "handled (p_commands p1 ! i)" "\<not> dominant (p_commands p1 ! i)"
    and cp: "cmd_parse q (p_commands p1 ! i) s = (True, c', s')"
    and hook: "derived c' = CmdArgument v None \<or> derived c' = CmdFunction cb v"
  shows "remaining_loop [0..<Suc i] p2 st2 = (True, update_cmd q i (\<lambda>_. c'), s')"
  using remaining_pass_continues [OF dom i pre h cp validate_no_hook [OF hook]] .

lemma run_succeeds:
  assumes tok: "tokenization p st = Inr (True, p1, st1)"
    and dom: "dominant_loop [0..<length (p_commands p1)] p1 st1 = (True, p2, st2)"
    and none: "\<forall>k<length (p_commands p1). required (p_commands p1 ! k) \<longrightarrow> handled (p_commands p1 ! k)"
    and rem: "remaining_loop [0..<length (p_commands p1)] p2 st2 = (b, p3, st3)"
  shows "run p st = Inr (b, p3, st3)"
  using run_reaches_remaining [OF tok dom none] rem by simp

lemma guarded_tokenization:
  "tokenization (guarded_cli [''-v'', ''3'']) empty_streams
     = Inr (True, set_handled (push_argument (set_handled (guarded_cli [''-v'', ''3'']) 2) 2 ''3'') 1,
            empty_streams)"
  by (simp add: run_defs registry_defs guarded_cli_def)

section \<open>The order of the passes (claim C1)\<close>

text \<open>
  Claim C1. Let the tokenization succeed and leave the parser \<^verbatim>\<open>p1\<close>. \<^verbatim>\<open>run\<close> then makes
  three passes over the registry, in this order.

  First pass. Let the pass have come to descriptor \<^verbatim>\<open>i\<close> without a failure, in the state
  \<^verbatim>\<open>(q, s)\<close>. A descriptor that is not both handled and dominant is skipped. For a handled
  dominant descriptor \<^verbatim>\<open>parse\<close> is called in that state. When \<^verbatim>\<open>parse\<close> fails, \<^verbatim>\<open>run\<close>
  returns false, and the last text on \<^verbatim>\<open>error\<close> is the usage of that descriptor.
  Otherwise \<^verbatim>\<open>validate\<close> is called on the descriptor and the streams that \<^verbatim>\<open>parse\<close> left:
  when it fails, \<^verbatim>\<open>run\<close> returns false in the same way, and when it succeeds the pass goes
  on to the next descriptor. \<^verbatim>\<open>validate\<close> fails exactly when the descriptor has a
  validation function and that function rejects the parsed value, after its text has
  been written to the streams. In each of these cases \<^verbatim>\<open>run\<close> returns with descriptor
  \<^verbatim>\<open>i\<close> as \<^verbatim>\<open>parse\<close> left it. None of this depends on the required descriptors: a failure
  of the first pass ends \<^verbatim>\<open>run\<close> before they are looked at.

  Second pass. When the first pass has succeeded and left \<^verbatim>\<open>(p2, st2)\<close>, and \<^verbatim>\<open>k\<close> is the
  first descriptor that is required and not handled, \<^verbatim>\<open>run\<close> returns false with the
  parser \<^verbatim>\<open>p2\<close>, and the message that \<^verbatim>\<open>k\<close> is required is written after \<^verbatim>\<open>st2\<close>.

  Third pass. When no required descriptor is unhandled, the third pass treats the
  descriptors that are handled and not dominant as the first pass treats the handled
  dominant ones, and skips the others; when it comes to the end, \<^verbatim>\<open>run\<close> returns true
  with the state it left.
\<close>

theorem passes_in_order:
  assumes tok: "tokenization p st = Inr (True, p1, st1)"
  shows
    "(\<forall>i q s. i < length (p_commands p1) \<and> dominant_loop [0..<i] p1 st1 = (True, q, s) \<longrightarrow>
        (\<not> (handled (p_commands p1 ! i) \<and> dominant (p_commands p1 ! i)) \<longrightarrow>
           dominant_loop [0..<Suc i] p1 st1 = (True, q, s))
      \<and> (handled (p_commands p1 ! i) \<and> dominant (p_commands p1 ! i) \<longrightarrow>
           (\<forall>c' s'. cmd_parse q (p_commands p1 ! i) s = (False, c', s') \<longrightarrow>
              run p st = Inr (False, update_cmd q i (\<lambda>_. c'), emit s' [] (invalid_arguments c')))
         \<and> (\<forall>c' s' s''. cmd_parse q (p_commands p1 ! i) s = (True, c', s')
                \<and> validate c' s' = (False, s'') \<longrightarrow>
              run p st = Inr (False, update_cmd q i (\<lambda>_. c'), emit s'' [] (invalid_arguments c')))
         \<and> (\<forall>c' s' s''. cmd_parse q (p_commands p1 ! i) s = (True, c', s')
                \<and> validate c' s' = (True, s'') \<longrightarrow>
              dominant_loop [0..<Suc i] p1 st1 = (True, update_cmd q i (\<lambda>_. c'), s''))
         \<and> (\<forall>c' s' v valFun out err. cmd_parse q (p_commands p1 ! i) s = (True, c', s')
                \<and> derived c' = CmdArgument v (Some valFun) \<and> valFun v = (out, err, False) \<longrightarrow>
              run p st = Inr (False, update_cmd q i (\<lambda>_. c'),
                              emit (emit s' out err) [] (invalid_arguments c')))
         \<and> (\<forall>c' s' v valFun out err. cmd_parse q (p_commands p1 ! i) s = (True, c', s')
                \<and> derived c' = CmdArgument v (Some valFun) \<and> valFun v = (out, err, True) \<longrightarrow>
              dominant_loop [0..<Suc i] p1 st1 = (True, update_cmd q i (\<lambda>_. c'), emit s' out err))
         \<and> (\<forall>c' s' v cb. cmd_parse q (p_commands p1 ! i) s = (True, c', s')
                \<and> (derived c' = CmdArgument v None \<or> derived c' = CmdFunction cb v) \<longrightarrow>
              dominant_loop [0..<Suc i] p1 st1 = (True, update_cmd q i (\<lambda>_. c'), s'))
         \<and> (\<forall>b c' s'. cmd_parse q (p_commands p1 ! i) s = (b, c', s') \<longrightarrow>
              (\<exists>b' p' st'. run p st = Inr (b', p', st') \<and> p_commands p' ! i = c'))))
   \<and> (\<forall>p2 st2. dominant_loop [0..<length (p_commands p1)] p1 st1 = (True, p2, st2) \<longrightarrow>
        (\<forall>k<length (p_commands p1).
           required (p_commands p1 ! k) \<and> \<not> handled (p_commands p1 ! k)
           \<and> (\<forall>j<k. required (p_commands p1 ! j) \<longrightarrow> handled (p_commands p1 ! j)) \<longrightarrow>
           run p st = Inr (False, p2, emit st2 [] (missing_required (p_commands p1 ! k))))
      \<and> ((\<forall>k<length (p_commands p1). required (p_commands p1 ! k) \<longrightarrow> handled (p_commands p1 ! k)) \<longrightarrow>
           (\<forall>i q s. i < length (p_commands p1) \<and> remaining_loop [0..<i] p2 st2 = (True, q, s) \<longrightarrow>
              (\<not> (handled (p_commands p1 ! i) \<and> \<not> dominant (p_commands p1 ! i)) \<longrightarrow>
                 remaining_loop [0..<Suc i] p2 st2 = (True, q, s))
            \<and> (handled (p_commands p1 ! i) \<and> \<not> dominant (p_commands p1 ! i) \<longrightarrow>
                 (\<forall>c' s'. cmd_parse q (p_commands p1 ! i) s = (False, c', s') \<longrightarrow>
                    run p st = Inr (False, update_cmd q i (\<lambda>_. c'),
                                    emit s' [] (invalid_arguments c')))
               \<and> (\<forall>c' s' s''. cmd_parse q (p_commands p1 ! i) s = (True, c', s')
                      \<and> validate c' s' = (False, s'') \<longrightarrow>
                    run p st = Inr (False, update_cmd q i (\<lambda>_. c'),
                                    emit s'' [] (invalid_arguments c')))
               \<and> (\<forall>c' s' s''. cmd_parse q (p_commands p1 ! i) s = (True, c', s')
                      \<and> validate c' s' = (True, s'') \<longrightarrow>
                    remaining_loop [0..<Suc i] p2 st2 = (True, update_cmd q i (\<lambda>_. c'), s''))
               \<and> (\<forall>c' s' v valFun out err. cmd_parse q (p_commands p1 ! i) s = (True, c', s')
                      \<and> derived c' = CmdArgument v (Some valFun) \<and> valFun v = (out, err, False) \<longrightarrow>
                    run p st = Inr (False, update_cmd q i (\<lambda>_. c'),
                                    emit (emit s' out err) [] (invalid_arguments c')))
               \<and> (\<forall>c' s' v valFun out err. cmd_parse q (p_commands p1 ! i) s = (True, c', s')
                      \<and> derived c' = CmdArgument v (Some valFun) \<and> valFun v = (out, err, True) \<longrightarrow>
                    remaining_loop [0..<Suc i] p2 st2
                      = (True, update_cmd q i (\<lambda>_. c'), emit s' out err))
               \<and> (\<forall>c' s' v cb. cmd_parse q (p_commands p1 ! i) s = (True, c', s')
                      \<and> (derived c' = CmdArgument v None \<or> derived c' = CmdFunction cb v) \<longrightarrow>
                    remaining_loop [0..<Suc i] p2 st2 = (True, update_cmd q i (\<lambda>_. c'), s'))))
         \<and> (\<forall>p3 st3. remaining_loop [0..<length (p_commands p1)] p2 st2 = (True, p3, st3) \<longrightarrow>
              run p st = Inr (True, p3, st3))))"
  apply (intro conjI allI impI; (elim conjE)?)
  subgoal by (rule dominant_pass_skips; assumption)
  subgoal by (rule dominant_pass_parse_fails [OF tok]; assumption)
  subgoal by (rule dominant_pass_validate_fails [OF tok]; assumption)
  subgoal by (rule dominant_pass_continues; assumption)
  subgoal by (rule dominant_pass_hook_rejects [OF tok]; assumption)
  subgoal by (rule dominant_pass_hook_accepts; assumption)
  subgoal by (rule dominant_pass_no_hook; assumption)
  subgoal by (rule dominant_pass_kept [OF tok]; assumption)
  subgoal by (rule run_required_missing [OF tok]; assumption)
  subgoal by (rule remaining_pass_skips; assumption)
  subgoal by (rule remaining_pass_parse_fails [OF tok]; assumption)
  subgoal by (rule remaining_pass_validate_fails [OF tok]; assumption)
  subgoal by (rule remaining_pass_continues; assumption)
  subgoal by (rule remaining_pass_hook_rejects [OF tok]; assumption)
  subgoal by (rule remaining_pass_hook_accepts; assumption)
  subgoal by (rule remaining_pass_no_hook; assumption)
  subgoal by (rule run_succeeds [OF tok]; assumption)
  done

text \<open>
  Four runs. \<^verbatim>\<open>guarded_cli\<close> on \<^verbatim>\<open>-v 3\<close>: the validation function of the dominant \<^verbatim>\<open>-v\<close>
  rejects the value 3, and \<^verbatim>\<open>run\<close> returns false with the usage of \<^verbatim>\<open>-v\<close> although the
  required \<^verbatim>\<open>-r\<close> is missing. \<^verbatim>\<open>dominant_cli\<close> on \<^verbatim>\<open>-d\<close>: the dominant callback is called
  and succeeds, then the required \<^verbatim>\<open>-r\<close> is reported missing. \<^verbatim>\<open>positional_cli\<close> on
  \<^verbatim>\<open>-n x\<close>: the third pass fails at \<^verbatim>\<open>-n\<close>. \<^verbatim>\<open>positional_cli\<close> on \<^verbatim>\<open>-n 5\<close>: all three
  passes succeed.
\<close>

theorem passes_in_order_witness:
  "(\<exists>G1 c'. tokenization (guarded_cli [''-v'', ''3'']) empty_streams = Inr (True, G1, empty_streams)
       \<and> dominant_loop [0..<2] G1 empty_streams = (True, G1, empty_streams)
       \<and> handled (p_commands G1 ! 2) \<and> dominant (p_commands G1 ! 2)
       \<and> required (p_commands G1 ! 3) \<and> \<not> handled (p_commands G1 ! 3)
       \<and> cmd_parse G1 (p_commands G1 ! 2) empty_streams = (True, c', empty_streams)
       \<and> derived c' = CmdArgument (VInt 3) (Some rejects)
       \<and> rejects (VInt 3) = (''seen'', ''rejected'', False)
       \<and> run (guarded_cli [''-v'', ''3'']) empty_streams
           = Inr (False, update_cmd G1 2 (\<lambda>_. c'),
                  emit (emit empty_streams ''seen'' ''rejected'') [] (invalid_arguments c')))
   \<and> (\<exists>D1 c1. tokenization (dominant_cli [''-d'']) empty_streams = Inr (True, D1, empty_streams)
       \<and> dominant_loop [0..<1] D1 empty_streams = (True, D1, empty_streams)
       \<and> handled (p_commands D1 ! 1) \<and> dominant (p_commands D1 ! 1)
       \<and> cmd_parse D1 (p_commands D1 ! 1) empty_streams
           = (True, c1, emit empty_streams ''called'' ''noted'')
       \<and> derived c1 = CmdFunction (UserCallback announces) (VInt 1)
       \<and> dominant_loop [0..<3] D1 empty_streams
           = (True, update_cmd D1 1 (\<lambda>_. c1), emit empty_streams ''called'' ''noted'')
       \<and> required (p_commands D1 ! 2) \<and> \<not> handled (p_commands D1 ! 2)
       \<and> \<not> required (p_commands D1 ! 0) \<and> \<not> required (p_commands D1 ! 1)
       \<and> run (dominant_cli [''-d'']) empty_streams
           = Inr (False, update_cmd D1 1 (\<lambda>_. c1),
                  emit (emit empty_streams ''called'' ''noted'') []
                    (missing_required (p_commands D1 ! 2))))
   \<and> (\<exists>P1 c' s'. tokenization (positional_cli [''-n'', ''x'']) empty_streams
           = Inr (True, P1, empty_streams)
       \<and> dominant_loop [0..<3] P1 empty_streams = (True, P1, empty_streams)
       \<and> \<not> required (p_commands P1 ! 0) \<and> \<not> required (p_commands P1 ! 1)
       \<and> \<not> required (p_commands P1 ! 2)
       \<and> remaining_loop [0..<2] P1 empty_streams = (True, P1, empty_streams)
       \<and> handled (p_commands P1 ! 2) \<and> \<not> dominant (p_commands P1 ! 2)
       \<and> cmd_parse P1 (p_commands P1 ! 2) empty_streams = (False, c', s')
       \<and> run (positional_cli [''-n'', ''x'']) empty_streams
           = Inr (False, update_cmd P1 2 (\<lambda>_. c'), emit s' [] (invalid_arguments c')))
   \<and> (\<exists>Q1 c'. tokenization (positional_cli [''-n'', ''5'']) empty_streams
           = Inr (True, Q1, empty_streams)
       \<and> dominant_loop [0..<3] Q1 empty_streams = (True, Q1, empty_streams)
       \<and> remaining_loop [0..<2] Q1 empty_streams = (True, Q1, empty_streams)
       \<and> handled (p_commands Q1 ! 2) \<and> \<not> dominant (p_commands Q1 ! 2)
       \<and> cmd_parse Q1 (p_commands Q1 ! 2) empty_streams = (True, c', empty_streams)
       \<and> derived c' = CmdArgument (VInt 5) None
       \<and> remaining_loop [0..<3] Q1 empty_streams = (True, update_cmd Q1 2 (\<lambda>_. c'), empty_streams)
       \<and> run (positional_cli [''-n'', ''5'']) empty_streams
           = Inr (True, update_cmd Q1 2 (\<lambda>_. c'), empty_streams))"
proof (intro conjI)
  define G where "G = guarded_cli [''-v'', ''3'']"
  define G1 where "G1 = set_handled (push_argument (set_handled G 2) 2 ''3'') 1"
  define c' where "c' = (p_commands G1 ! 2)\<lparr>derived := CmdArgument (VInt 3) (Some rejects)\<rparr>"
  have tok: "tokenization G empty_streams = Inr (True, G1, empty_streams)"
    unfolding G_def G1_def by (rule guarded_tokenization)
  have pr: "parse_int [''3''] 0 = Inr 3" by code_simp
  have cmds: "p_commands G1 =
     [(p_commands G ! 0), (p_commands G ! 1)\<lparr>handled := True\<rparr>,
      (p_commands G ! 2)\<lparr>handled := True, arguments := [''3'']\<rparr>, p_commands G ! 3]"
    unfolding G_def G1_def
    by (simp add: registry_defs guarded_cli_def set_handled_def push_argument_def update_cmd_def)
  have facts: "2 < length (p_commands G1)" "handled (p_commands G1 ! 2)" "dominant (p_commands G1 ! 2)"
    "required (p_commands G1 ! 3)" "\<not> handled (p_commands G1 ! 3)"
    unfolding cmds unfolding G_def by (simp_all add: registry_defs guarded_cli_def)
  have pre: "dominant_loop [0..<2] G1 empty_streams = (True, G1, empty_streams)"
    by (simp add: upt_rec cmds G_def registry_defs guarded_cli_def)
  have cp: "cmd_parse G1 (p_commands G1 ! 2) empty_streams = (True, c', empty_streams)"
    unfolding c'_def cmds unfolding G_def
    by (simp add: registry_defs guarded_cli_def cmd_parse_def CmdArgument_parse_def pr)
  have hook: "derived c' = CmdArgument (VInt 3) (Some rejects)"
    "rejects (VInt 3) = (''seen'', ''rejected'', False)"
    by (simp_all add: c'_def rejects_def)
  from passes_in_order [OF tok, THEN conjunct1, rule_format, of 2 G1 empty_streams] facts(1) pre
  have "handled (p_commands G1 ! 2) \<and> dominant (p_commands G1 ! 2) \<longrightarrow>
     (\<forall>c' s' v valFun out err. cmd_parse G1 (p_commands G1 ! 2) empty_streams = (True, c', s')
                \<and> derived c' = CmdArgument v (Some valFun) \<and> valFun v = (out, err, False) \<longrightarrow>
              run G empty_streams = Inr (False, update_cmd G1 2 (\<lambda>_. c'),
                              emit (emit s' out err) [] (invalid_arguments c')))"
    by blast
  with facts(2,3) cp hook
  have "run G empty_streams = Inr (False, update_cmd G1 2 (\<lambda>_. c'),
                              emit (emit empty_streams ''seen'' ''rejected'') [] (invalid_arguments c'))"
    by blast
  with tok pre facts(2-5) cp hook
  show "\<exists>G1 c'. tokenization (guarded_cli [''-v'', ''3'']) empty_streams = Inr (True, G1, empty_streams)
       \<and> dominant_loop [0..<2] G1 empty_streams = (True, G1, empty_streams)
       \<and> handled (p_commands G1 ! 2) \<and> dominant (p_commands G1 ! 2)
       \<and> required (p_commands G1 ! 3) \<and> \<not> handled (p_commands G1 ! 3)
       \<and> cmd_parse G1 (p_commands G1 ! 2) empty_streams = (True, c', empty_streams)
       \<and> derived c' = CmdArgument (VInt 3) (Some rejects)
       \<and> rejects (VInt 3) = (''seen'', ''rejected'', False)
       \<and> run (guarded_cli [''-v'', ''3'']) empty_streams
           = Inr (False, update_cmd G1 2 (\<lambda>_. c'),
                  emit (emit empty_streams ''seen'' ''rejected'') [] (invalid_arguments c'))"
    unfolding G_def by (intro exI [of _ G1] exI [of _ c'] conjI)
next
  define D where "D = dominant_cli [''-d'']"
  define D1 where "D1 = set_handled D 1"
  define c1 where "c1 = (p_commands D1 ! 1)\<lparr>derived := CmdFunction (UserCallback announces) (VInt 1)\<rparr>"
  define t where "t = emit empty_streams ''called'' ''noted''"
  have tok: "tokenization D empty_streams = Inr (True, D1, empty_streams)"
    unfolding D_def D1_def by (rule dominant_tokenization)
  have cmds: "p_commands D1 = [p_commands D ! 0, (p_commands D ! 1)\<lparr>handled := True\<rparr>, p_commands D ! 2]"
    unfolding D_def D1_def
    by (simp add: registry_defs dominant_cli_def set_handled_def update_cmd_def)
  have len: "length (p_commands D1) = 3" by (simp add: cmds)
  have facts: "handled (p_commands D1 ! 1)" "dominant (p_commands D1 ! 1)"
    "required (p_commands D1 ! 2)" "\<not> handled (p_commands D1 ! 2)"
    "\<not> required (p_commands D1 ! 0)" "\<not> required (p_commands D1 ! 1)"
    unfolding cmds unfolding D_def by (simp_all add: registry_defs dominant_cli_def)
  have pre: "dominant_loop [0..<1] D1 empty_streams = (True, D1, empty_streams)"
    by (simp add: upt_rec cmds D_def registry_defs dominant_cli_def)
  have cp: "cmd_parse D1 (p_commands D1 ! 1) empty_streams = (True, c1, t)"
    unfolding c1_def t_def cmds unfolding D_def
    by (simp add: registry_defs dominant_cli_def cmd_parse_def CmdFunction_parse_def announces_def)
  have kind: "derived c1 = CmdFunction (UserCallback announces) (VInt 1)"
    by (simp add: c1_def)
  note T = passes_in_order [OF tok]
  from T [THEN conjunct1, rule_format, of 1 D1 empty_streams] len pre
  have "handled (p_commands D1 ! 1) \<and> dominant (p_commands D1 ! 1) \<longrightarrow>
     (\<forall>c' s' v cb. cmd_parse D1 (p_commands D1 ! 1) empty_streams = (True, c', s')
        \<and> (derived c' = CmdArgument v None \<or> derived c' = CmdFunction cb v) \<longrightarrow>
        dominant_loop [0..<Suc 1] D1 empty_streams = (True, update_cmd D1 1 (\<lambda>_. c'), s'))"
    by simp
  with facts(1,2) cp kind
  have two: "dominant_loop [0..<2] D1 empty_streams = (True, update_cmd D1 1 (\<lambda>_. c1), t)"
    by (simp add: numeral_2_eq_2)
  from T [THEN conjunct1, rule_format, of 2 "update_cmd D1 1 (\<lambda>_. c1)" t] len two facts(4)
  have three: "dominant_loop [0..<3] D1 empty_streams = (True, update_cmd D1 1 (\<lambda>_. c1), t)"
    by (simp add: numeral_3_eq_3 numeral_2_eq_2)
  have first: "\<forall>j<2. required (p_commands D1 ! j) \<longrightarrow> handled (p_commands D1 ! j)"
    using facts(5,6) by (simp add: numeral_2_eq_2 All_less_Suc)
  from T [THEN conjunct2, rule_format, of "update_cmd D1 1 (\<lambda>_. c1)" t] three len
  have "\<forall>k<3. required (p_commands D1 ! k) \<and> \<not> handled (p_commands D1 ! k)
           \<and> (\<forall>j<k. required (p_commands D1 ! j) \<longrightarrow> handled (p_commands D1 ! j)) \<longrightarrow>
           run D empty_streams
             = Inr (False, update_cmd D1 1 (\<lambda>_. c1), emit t [] (missing_required (p_commands D1 ! k)))"
    by simp
  with facts(3,4) first
  have "run D empty_streams
      = Inr (False, update_cmd D1 1 (\<lambda>_. c1), emit t [] (missing_required (p_commands D1 ! 2)))"
    by simp
  with tok pre facts cp kind three
  show "\<exists>D1 c1. tokenization (dominant_cli [''-d'']) empty_streams = Inr (True, D1, empty_streams)
       \<and> dominant_loop [0..<1] D1 empty_streams = (True, D1, empty_streams)
       \<and> handled (p_commands D1 ! 1) \<and> dominant (p_commands D1 ! 1)
       \<and> cmd_parse D1 (p_commands D1 ! 1) empty_streams
           = (True, c1, emit empty_streams ''called'' ''noted'')
       \<and> derived c1 = CmdFunction (UserCallback announces) (VInt 1)
       \<and> dominant_loop [0..<3] D1 empty_streams
           = (True, update_cmd D1 1 (\<lambda>_. c1), emit empty_streams ''called'' ''noted'')
       \<and> required (p_commands D1 ! 2) \<and> \<not> handled (p_commands D1 ! 2)
       \<and> \<not> required (p_commands D1 ! 0) \<and> \<not> required (p_commands D1 ! 1)
       \<and> run (dominant_cli [''-d'']) empty_streams
           = Inr (False, update_cmd D1 1 (\<lambda>_. c1),
                  emit (emit empty_streams ''called'' ''noted'') []
                    (missing_required (p_commands D1 ! 2)))"
    unfolding D_def t_def by (intro exI [of _ D1] exI [of _ c1] conjI)
next
  define P where "P = positional_cli [''-n'', ''x'']"
  define P1 where "P1 = set_handled (push_argument (set_handled P 2) 2 ''x'') 1"
  have tok: "tokenization P empty_streams = Inr (True, P1, empty_streams)"
    unfolding P_def P1_def by (simp add: run_defs registry_defs positional_cli_def)
  have cmds: "p_commands P1 = [p_commands P ! 0, (p_commands P ! 1)\<lparr>handled := True\<rparr>,
      (p_commands P ! 2)\<lparr>handled := True, arguments := [''x'']\<rparr>]"
    unfolding P_def P1_def
    by (simp add: registry_defs positional_cli_def set_handled_def push_argument_def update_cmd_def)
  have len: "length (p_commands P1) = 3" by (simp add: cmds)
  have facts: "\<not> required (p_commands P1 ! 0)" "\<not> required (p_commands P1 ! 1)"
    "\<not> required (p_commands P1 ! 2)" "handled (p_commands P1 ! 2)" "\<not> dominant (p_commands P1 ! 2)"
    unfolding cmds unfolding P_def by (simp_all add: registry_defs positional_cli_def)
  have dom: "dominant_loop [0..<3] P1 empty_streams = (True, P1, empty_streams)"
    by (simp add: upt_rec cmds P_def registry_defs positional_cli_def)
  have same: "update_cmd P1 1 (\<lambda>_. p_commands P1 ! 1) = P1"
    by (simp add: update_cmd_def)
  have pre: "remaining_loop [0..<2] P1 empty_streams = (True, P1, empty_streams)"
    using same
    by (simp add: upt_rec cmds P_def registry_defs positional_cli_def parse_and_validate_def
        cmd_parse_def CmdArgument_parse_def validate_def)
  have none: "\<forall>k<3. required (p_commands P1 ! k) \<longrightarrow> handled (p_commands P1 ! k)"
    using facts(1-3) by (simp add: numeral_3_eq_3 numeral_2_eq_2 All_less_Suc)
  have pr: "parse_int [''x''] 0 = Inl (invalid_argument ''stoi'')" by code_simp
  obtain b c' s' where cp: "cmd_parse P1 (p_commands P1 ! 2) empty_streams = (b, c', s')"
    by (cases "cmd_parse P1 (p_commands P1 ! 2) empty_streams") auto
  have "\<not> fst (cmd_parse P1 (p_commands P1 ! 2) empty_streams)"
    unfolding cmds unfolding P_def
    by (simp add: registry_defs positional_cli_def cmd_parse_def CmdArgument_parse_def pr)
  with cp have cp': "cmd_parse P1 (p_commands P1 ! 2) empty_streams = (False, c', s')" by simp
  note T = passes_in_order [OF tok]
  from T [THEN conjunct2, rule_format, of P1 empty_streams] dom len
  have "(\<forall>k<3. required (p_commands P1 ! k) \<longrightarrow> handled (p_commands P1 ! k)) \<longrightarrow>
     (\<forall>i q s. i < 3 \<and> remaining_loop [0..<i] P1 empty_streams = (True, q, s) \<longrightarrow>
        (handled (p_commands P1 ! i) \<and> \<not> dominant (p_commands P1 ! i) \<longrightarrow>
           (\<forall>c' s'. cmd_parse q (p_commands P1 ! i) s = (False, c', s') \<longrightarrow>
              run P empty_streams = Inr (False, update_cmd q i (\<lambda>_. c'),
                                    emit s' [] (invalid_arguments c')))))"
    by simp
  with none pre facts(4,5) cp'
  have "run P empty_streams = Inr (False, update_cmd P1 2 (\<lambda>_. c'), emit s' [] (invalid_arguments c'))"
    by (metis (no_types, lifting) numeral_2_eq_2 numeral_3_eq_3 lessI)
  with tok dom facts pre cp'
  show "\<exists>P1 c' s'. tokenization (positional_cli [''-n'', ''x'']) empty_streams
           = Inr (True, P1, empty_streams)
       \<and> dominant_loop [0..<3] P1 empty_streams = (True, P1, empty_streams)
       \<and> \<not> required (p_commands P1 ! 0) \<and> \<not> required (p_commands P1 ! 1)
       \<and> \<not> required (p_commands P1 ! 2)
       \<and> remaining_loop [0..<2] P1 empty_streams = (True, P1, empty_streams)
       \<and> handled (p_commands P1 ! 2) \<and> \<not> dominant (p_commands P1 ! 2)
       \<and> cmd_parse P1 (p_commands P1 ! 2) empty_streams = (False, c', s')
       \<and> run (positional_cli [''-n'', ''x'']) empty_streams
           = Inr (False, update_cmd P1 2 (\<lambda>_. c'), emit s' [] (invalid_arguments c'))"
    unfolding P_def by (intro exI [of _ P1] exI [of _ c'] exI [of _ s'] conjI)
next
  define Q where "Q = positional_cli [''-n'', ''5'']"
  define Q1 where "Q1 = set_handled (push_argument (set_handled Q 2) 2 ''5'') 1"
  define c' where "c' = (p_commands Q1 ! 2)\<lparr>derived := CmdArgument (VInt 5) None\<rparr>"
  have tok: "tokenization Q empty_streams = Inr (True, Q1, empty_streams)"
    unfolding Q_def Q1_def by (simp add: run_defs registry_defs positional_cli_def)
  have cmds: "p_commands Q1 = [p_commands Q ! 0, (p_commands Q ! 1)\<lparr>handled := True\<rparr>,
      (p_commands Q ! 2)\<lparr>handled := True, arguments := [''5'']\<rparr>]"
    unfolding Q_def Q1_def
    by (simp add: registry_defs positional_cli_def set_handled_def push_argument_def update_cmd_def)
  have len: "length (p_commands Q1) = 3" by (simp add: cmds)
  have facts: "\<not> required (p_commands Q1 ! 0)" "\<not> required (p_commands Q1 ! 1)"
    "\<not> required (p_commands Q1 ! 2)" "handled (p_commands Q1 ! 2)" "\<not> dominant (p_commands Q1 ! 2)"
    unfolding cmds unfolding Q_def by (simp_all add: registry_defs positional_cli_def)
  have dom: "dominant_loop [0..<3] Q1 empty_streams = (True, Q1, empty_streams)"
    by (simp add: upt_rec cmds Q_def registry_defs positional_cli_def)
  have same: "update_cmd Q1 1 (\<lambda>_. p_commands Q1 ! 1) = Q1"
    by (simp add: update_cmd_def)
  have pre: "remaining_loop [0..<2] Q1 empty_streams = (True, Q1, empty_streams)"
    using same
    by (simp add: upt_rec cmds Q_def registry_defs positional_cli_def parse_and_validate_def
        cmd_parse_def CmdArgument_parse_def validate_def)
  have none: "\<forall>k<3. required (p_commands Q1 ! k) \<longrightarrow> handled (p_commands Q1 ! k)"
    using facts(1-3) by (simp add: numeral_3_eq_3 numeral_2_eq_2 All_less_Suc)
  have pr: "parse_int [''5''] 0 = Inr 5" by code_simp
  have cp: "cmd_parse Q1 (p_commands Q1 ! 2) empty_streams = (True, c', empty_streams)"
    unfolding c'_def cmds unfolding Q_def
    by (simp add: registry_defs positional_cli_def cmd_parse_def CmdArgument_parse_def pr)
  have kind: "derived c' = CmdArgument (VInt 5) None" by (simp add: c'_def)
  note T = passes_in_order [OF tok]
  from T [THEN conjunct2, rule_format, of Q1 empty_streams] dom len
  have block: "(\<forall>k<3. required (p_commands Q1 ! k) \<longrightarrow> handled (p_commands Q1 ! k)) \<longrightarrow>
     (\<forall>i q s. i < 3 \<and> remaining_loop [0..<i] Q1 empty_streams = (True, q, s) \<longrightarrow>
        (handled (p_commands Q1 ! i) \<and> \<not> dominant (p_commands Q1 ! i) \<longrightarrow>
           (\<forall>c' s' v cb. cmd_parse q (p_commands Q1 ! i) s = (True, c', s')
              \<and> (derived c' = CmdArgument v None \<or> derived c' = CmdFunction cb v) \<longrightarrow>
              remaining_loop [0..<Suc i] Q1 empty_streams = (True, update_cmd q i (\<lambda>_. c'), s'))))
     \<and> (\<forall>p3 st3. remaining_loop [0..<3] Q1 empty_streams = (True, p3, st3) \<longrightarrow>
              run Q empty_streams = Inr (True, p3, st3))"
    by simp
  with none pre facts(4,5) cp kind
  have three: "remaining_loop [0..<3] Q1 empty_streams = (True, update_cmd Q1 2 (\<lambda>_. c'), empty_streams)"
    by (metis (no_types, lifting) numeral_2_eq_2 numeral_3_eq_3 lessI)
  with block none
  have "run Q empty_streams = Inr (True, update_cmd Q1 2 (\<lambda>_. c'), empty_streams)"
    by blast
  with tok dom pre facts(4,5) cp kind three
  show "\<exists>Q1 c'. tokenization (positional_cli [''-n'', ''5'']) empty_streams
           = Inr (True, Q1, empty_streams)
       \<and> dominant_loop [0..<3] Q1 empty_streams = (True, Q1, empty_streams)
       \<and> remaining_loop [0..<2] Q1 empty_streams = (True, Q1, empty_streams)
       \<and> handled (p_commands Q1 ! 2) \<and> \<not> dominant (p_commands Q1 ! 2)
       \<and> cmd_parse Q1 (p_commands Q1 ! 2) empty_streams = (True, c', empty_streams)
       \<and> derived c' = CmdArgument (VInt 5) None
       \<and> remaining_loop [0..<3] Q1 empty_streams = (True, update_cmd Q1 2 (\<lambda>_. c'), empty_streams)
       \<and> run (positional_cli [''-n'', ''5'']) empty_streams
           = Inr (True, update_cmd Q1 2 (\<lambda>_. c'), empty_streams)"
    unfolding Q_def by (intro exI [of _ Q1] exI [of _ c'] conjI)
qed

section \<open>One value for a flag, then the default descriptor (claim C2)\<close>

text \<open>
  Claim C2 as stated fails when the default descriptor is not variadic: the program
  \<^verbatim>\<open>positional_cli\<close> run on \<^verbatim>\<open>-n 5 a b\<close> routes \<^verbatim>\<open>5\<close> to \<^verbatim>\<open>-n\<close> and \<^verbatim>\<open>a\<close> to the
  default descriptor, then rejects \<^verbatim>\<open>b\<close> and returns false.
\<close>

theorem second_positional_rejected:
  "returned (run (positional_cli [''-n'', ''5'', ''a'', ''b'']) empty_streams) = Inr False
   \<and> descriptors (run (positional_cli [''-n'', ''5'', ''a'', ''b'']) empty_streams)
       = [(''h'', False, [], VBool False), ([], True, [''a''], VString []), (''n'', True, [''5''], VInt 0)]
   \<and> diagnostics (run (positional_cli [''-n'', ''5'', ''a'', ''b'']) empty_streams)
       = only_one_parameter (p_commands (positional_cli []) ! 1) ''b''"
  by code_simp

text \<open>
  Claim C2, amended. Let the argument vector be \<^verbatim>\<open>[f, v, a1, a2]\<close>, where \<^verbatim>\<open>f\<close> is the
  flag of a descriptor \<^verbatim>\<open>n\<close> that is not variadic and has an empty bucket, the default
  descriptor \<^verbatim>\<open>d\<close> is another descriptor with an empty bucket, and none of \<^verbatim>\<open>v\<close>,
  \<^verbatim>\<open>a1\<close>, \<^verbatim>\<open>a2\<close> resolves to a descriptor. When \<^verbatim>\<open>d\<close> is variadic, the tokenization
  succeeds and after \<^verbatim>\<open>run\<close> the bucket of \<^verbatim>\<open>n\<close> is \<^verbatim>\<open>[v]\<close> and the bucket of \<^verbatim>\<open>d\<close> is
  \<^verbatim>\<open>[a1, a2]\<close>. When \<^verbatim>\<open>d\<close> is not variadic, \<^verbatim>\<open>run\<close> returns false with \<^verbatim>\<open>[v]\<close> in the
  bucket of \<^verbatim>\<open>n\<close> and \<^verbatim>\<open>[a1]\<close> in the bucket of \<^verbatim>\<open>d\<close>.
\<close>

theorem one_value_then_default:
  assumes args: "p_arguments p = [f, v, a1, a2]"
    and flag: "associated p f = Some n"
    and n: "\<not> variadic (p_commands p ! n)" "arguments (p_commands p ! n) = []"
    and d: "find_default p = Some d" "d \<noteq> n" "arguments (p_commands p ! d) = []"
    and plain: "associated p v = None" "associated p a1 = None" "associated p a2 = None"
  shows "(variadic (p_commands p ! d) \<longrightarrow>
            (\<exists>p1 b p' st'. tokenization p st = Inr (True, p1, st) \<and> run p st = Inr (b, p', st')
               \<and> arguments (p_commands p' ! n) = [v] \<and> arguments (p_commands p' ! d) = [a1, a2]
               \<and> handled (p_commands p' ! n) \<and> handled (p_commands p' ! d)))
       \<and> (\<not> variadic (p_commands p ! d) \<longrightarrow>
            (\<exists>p' st'. run p st = Inr (False, p', st')
               \<and> arguments (p_commands p' ! n) = [v] \<and> arguments (p_commands p' ! d) = [a1]))"
proof -
  from associated_SomeD [OF flag] have nlen: "n < length (p_commands p)" by simp
  from find_default_Some [OF d(1)] have dlen: "d < length (p_commands p)" by simp
  define q1 where "q1 = set_handled p n"
  define q2 where "q2 = set_handled (push_argument q1 n v) d"
  define q3 where "q3 = set_handled (push_argument q2 d a1) d"
  define q4 where "q4 = set_handled (push_argument q3 d a2) d"
  have q2_args: "arguments (p_commands q2 ! n) = [v]" "arguments (p_commands q2 ! d) = []"
    using n(2) d(2,3) nlen by (simp_all add: q2_def q1_def arguments_push_argument)
  have q3_args: "arguments (p_commands q3 ! n) = [v]" "arguments (p_commands q3 ! d) = [a1]"
    using q2_args d(2) dlen by (simp_all add: q3_def q2_def q1_def arguments_push_argument)
  have q4_args: "arguments (p_commands q4 ! n) = [v]" "arguments (p_commands q4 ! d) = [a1, a2]"
    using q3_args d(2) dlen by (simp_all add: q4_def q3_def q2_def q1_def arguments_push_argument)
  have q4_handled: "handled (p_commands q4 ! n)" "handled (p_commands q4 ! d)"
    using nlen dlen d(2)
    by (simp_all add: q4_def q3_def q2_def q1_def set_handled_def push_argument_def)
  have step1: "tokenize [f, v, a1, a2] (Some d) p st = tokenize [a1, a2] (Some d) q2 st"
    using flag n d(1) plain(1) by (simp add: q1_def q2_def)
  have step2: "variadic (p_commands p ! d) \<Longrightarrow> tokenize [a1, a2] (Some d) q2 st = Inr (True, q4, st)"
    using plain(2,3) by (simp add: q1_def q2_def q3_def q4_def)
  have step3: "\<not> variadic (p_commands p ! d)
      \<Longrightarrow> \<exists>st'. tokenize [a1, a2] (Some d) q2 st = Inr (False, q3, st')"
    using plain(2,3) d(1) q2_args(2) q3_args(2)
    by (cases "isarg a2") (simp_all add: q1_def q2_def q3_def)
  have tok: "tokenization p st = tokenize [f, v, a1, a2] (Some d) p st"
    using args d(1) by (simp add: tokenization_def)
  show ?thesis
  proof (intro conjI impI)
    assume "variadic (p_commands p ! d)"
    with step1 step2 tok have t: "tokenization p st = Inr (True, q4, st)" by simp
    from t obtain b and p2 :: Parser and p' st' where
      r: "run p st = Inr (b, p', st')"
      and d2: "list_all2 (resolved True) (p_commands q4) (p_commands p2)"
      and d3: "list_all2 (resolved False) (p_commands p2) (p_commands p')"
      by (rule run_after_tokenization)
    have len4: "length (p_commands q4) = length (p_commands p)"
      by (simp add: q4_def q3_def q2_def q1_def)
    from d2 have len2: "length (p_commands p2) = length (p_commands q4)"
      by (simp add: list_all2_lengthD)
    from resolved_arguments [OF d2] resolved_arguments [OF d3] len2 len4 nlen dlen q4_args q4_handled
    have "arguments (p_commands p' ! n) = [v] \<and> arguments (p_commands p' ! d) = [a1, a2]
               \<and> handled (p_commands p' ! n) \<and> handled (p_commands p' ! d)" by simp
    with t r show "\<exists>p1 b p' st'. tokenization p st = Inr (True, p1, st) \<and> run p st = Inr (b, p', st')
               \<and> arguments (p_commands p' ! n) = [v] \<and> arguments (p_commands p' ! d) = [a1, a2]
               \<and> handled (p_commands p' ! n) \<and> handled (p_commands p' ! d)" by blast
  next
    assume "\<not> variadic (p_commands p ! d)"
    with step1 step3 tok obtain st' where "tokenization p st = Inr (False, q3, st')" by auto
    then have "run p st = Inr (False, q3, st')" by (simp add: run_def)
    with q3_args show "\<exists>p' st'. run p st = Inr (False, p', st')
               \<and> arguments (p_commands p' ! n) = [v] \<and> arguments (p_commands p' ! d) = [a1]" by blast
  qed
qed

text \<open>
  The programs \<^verbatim>\<open>variadic_cli\<close> and \<^verbatim>\<open>positional_cli\<close> run on \<^verbatim>\<open>-n 5 a b\<close>.
\<close>

theorem one_value_then_default_witness:
  "associated (variadic_cli [''-n'', ''5'', ''a'', ''b'']) ''-n'' = Some 2
   \<and> find_default (variadic_cli [''-n'', ''5'', ''a'', ''b'']) = Some 1
   \<and> variadic (p_commands (variadic_cli [''-n'', ''5'', ''a'', ''b'']) ! 1)
   \<and> (\<exists>p1 b p' st'.
         tokenization (variadic_cli [''-n'', ''5'', ''a'', ''b'']) empty_streams = Inr (True, p1, empty_streams)
         \<and> run (variadic_cli [''-n'', ''5'', ''a'', ''b'']) empty_streams = Inr (b, p', st')
         \<and> arguments (p_commands p' ! 2) = [''5''] \<and> arguments (p_commands p' ! 1) = [''a'', ''b'']
         \<and> handled (p_commands p' ! 2) \<and> handled (p_commands p' ! 1))
   \<and> associated (positional_cli [''-n'', ''5'', ''a'', ''b'']) ''-n'' = Some 2
   \<and> find_default (positional_cli [''-n'', ''5'', ''a'', ''b'']) = Some 1
   \<and> \<not> variadic (p_commands (positional_cli [''-n'', ''5'', ''a'', ''b'']) ! 1)
   \<and> (\<exists>p' st'. run (positional_cli [''-n'', ''5'', ''a'', ''b'']) empty_streams = Inr (False, p', st')
         \<and> arguments (p_commands p' ! 2) = [''5''] \<and> arguments (p_commands p' ! 1) = [''a''])"
proof -
  define pv where "pv = variadic_cli [''-n'', ''5'', ''a'', ''b'']"
  define pp where "pp = positional_cli [''-n'', ''5'', ''a'', ''b'']"
  have v: "p_arguments pv = [''-n'', ''5'', ''a'', ''b'']" "associated pv ''-n'' = Some 2"
    "\<not> variadic (p_commands pv ! 2)" "arguments (p_commands pv ! 2) = []"
    "find_default pv = Some 1" "(1::nat) \<noteq> 2" "arguments (p_commands pv ! 1) = []"
    "associated pv ''5'' = None" "associated pv ''a'' = None" "associated pv ''b'' = None"
    "variadic (p_commands pv ! 1)"
    unfolding pv_def
    by (simp_all add: example_defs registry_defs associated_def isarg_def find_cmd_def find_default_def cmd_is_def)
  have p: "p_arguments pp = [''-n'', ''5'', ''a'', ''b'']" "associated pp ''-n'' = Some 2"
    "\<not> variadic (p_commands pp ! 2)" "arguments (p_commands pp ! 2) = []"
    "find_default pp = Some 1" "(1::nat) \<noteq> 2" "arguments (p_commands pp ! 1) = []"
    "associated pp ''5'' = None" "associated pp ''a'' = None" "associated pp ''b'' = None"
    "\<not> variadic (p_commands pp ! 1)"
    unfolding pp_def
    by (simp_all add: example_defs registry_defs associated_def isarg_def find_cmd_def find_default_def cmd_is_def)
  from one_value_then_default [OF v(1-10), of empty_streams, THEN conjunct1, THEN mp, OF v(11)]
  have 1: "\<exists>p1 b p' st'.
         tokenization pv empty_streams = Inr (True, p1, empty_streams)
         \<and> run pv empty_streams = Inr (b, p', st')
         \<and> arguments (p_commands p' ! 2) = [''5''] \<and> arguments (p_commands p' ! 1) = [''a'', ''b'']
         \<and> handled (p_commands p' ! 2) \<and> handled (p_commands p' ! 1)" .
  from one_value_then_default [OF p(1-10), of empty_streams, THEN conjunct2, THEN mp, OF p(11)]
  have 2: "\<exists>p' st'. run pp empty_streams = Inr (False, p', st')
         \<and> arguments (p_commands p' ! 2) = [''5''] \<and> arguments (p_commands p' ! 1) = [''a'']" .
  from v(2,5,11) 1 p(2,5,11) 2 show ?thesis unfolding pv_def pp_def by (intro conjI)
qed

section \<open>An optional boolean flag (claim C3)\<close>

text \<open>
  Claim C3 does not hold of the code: the presence of the flag does not toggle an
  optional \<^verbatim>\<open>bool\<close>. Whatever the registry and the argument vector are, a value parameter
  of type \<^verbatim>\<open>bool\<close> that is not required has after \<^verbatim>\<open>run\<close> the value it had before.
  \<^verbatim>\<open>CmdArgument::parse\<close> returns at once when the bucket is empty, and the \<^verbatim>\<open>bool\<close>
  overload of \<^verbatim>\<open>Parser::parse\<close>, which returns the negation of the default, throws when
  the bucket is not empty.
\<close>

theorem optional_bool_never_toggled:
  assumes run: "run p st = Inr (b, p', st')" and i: "i < length (p_commands p)"
    and kind: "derived (p_commands p ! i) = CmdArgument (VBool x) vf"
    and optional: "\<not> required (p_commands p ! i)"
  shows "cmd_value (p_commands p' ! i) = VBool x"
proof -
  from kind optional have opt: "optional_bool x vf (p_commands p ! i)"
    by (simp add: optional_bool_def)
  have tok: "optional_bool x vf (p_commands p1 ! i)"
    if "tokenization p st = Inr (b1, p1, st1)" for b1 p1 st1
  proof -
    from tokenization_frame(1) [OF that] i have "tokenized (p_commands p ! i) (p_commands p1 ! i)"
      by (simp add: list_all2_conv_all_nth)
    with opt show ?thesis by (simp add: tokenized_def same_flags_def optional_bool_def)
  qed
  have val: "cmd_value c = VBool x" if "optional_bool x vf c" for c
    using that by (simp add: optional_bool_def cmd_value_def)
  from run show ?thesis
  proof (cases rule: run_cases)
    case tokens
    from tok [OF tokens(1)] show ?thesis by (rule val)
  next
    case (dominant p1 st1)
    from optional_bool_dominant_loop [OF dominant(2) tok [OF dominant(1)]] tok [OF dominant(1)]
    show ?thesis by (simp add: val)
  next
    case (required p1 st1 st2)
    from optional_bool_dominant_loop [OF required(2) tok [OF required(1)]] tok [OF required(1)]
    show ?thesis by (simp add: val)
  next
    case (remaining p1 st1 p2 st2 st3)
    from optional_bool_dominant_loop [OF remaining(2) tok [OF remaining(1)]] tok [OF remaining(1)]
    have p2: "optional_bool x vf (p_commands p2 ! i)" by simp
    from optional_bool_remaining_loop [OF remaining(4) p2] p2
    show ?thesis by (simp add: val)
  qed
qed

text \<open>
  The program \<^verbatim>\<open>bool_cli\<close> registers \<^verbatim>\<open>-f\<close> as an optional \<^verbatim>\<open>bool\<close> with the default
  \<^verbatim>\<open>false\<close>. Run on \<^verbatim>\<open>-f\<close>, \<^verbatim>\<open>run\<close> returns true, the descriptor is handled, and
  \<^verbatim>\<open>get<bool>("f")\<close> is still \<^verbatim>\<open>false\<close>, while the \<^verbatim>\<open>bool\<close> overload of \<^verbatim>\<open>Parser::parse\<close>
  on the empty bucket gives \<^verbatim>\<open>true\<close>.
\<close>

theorem bool_flag_not_toggled:
  "run (bool_cli [''-f'']) empty_streams = Inr (True, set_handled (bool_cli [''-f'']) 1, empty_streams)
   \<and> derived (p_commands (bool_cli [''-f'']) ! 1) = CmdArgument (VBool False) None
   \<and> \<not> required (p_commands (bool_cli [''-f'']) ! 1)
   \<and> handled (p_commands (set_handled (bool_cli [''-f'']) 1) ! 1)
   \<and> cmd_value (p_commands (set_handled (bool_cli [''-f'']) 1) ! 1) = VBool False
   \<and> run_get (bool_cli [''-f'']) empty_streams TBool ''f'' = Inr (True, Inr (VBool False))
   \<and> parse [] (VBool False) = Inr (VBool True)"
proof -
  define p where "p = bool_cli [''-f'']"
  have r: "run p empty_streams = Inr (True, set_handled p 1, empty_streams)"
    unfolding p_def by (rule bool_flag_only)
  have h: "1 < length (p_commands p)" "derived (p_commands p ! 1) = CmdArgument (VBool False) None"
    "\<not> required (p_commands p ! 1)" "handled (p_commands (set_handled p 1) ! 1)"
    unfolding p_def by (simp_all add: example_defs registry_defs set_handled_def update_cmd_def)
  from optional_bool_never_toggled [OF r h(1-3)]
  have v: "cmd_value (p_commands (set_handled p 1) ! 1) = VBool False" .
  have g: "run_get (bool_cli [''-f'']) empty_streams TBool ''f'' = Inr (True, Inr (VBool False))"
    by code_simp
  have t: "parse [] (VBool False) = Inr (VBool True)" by simp
  from r h(2-4) v g t show ?thesis unfolding p_def by (intro conjI)
qed

section \<open>The result of a callback (claim C4)\<close>

text \<open>
  Claim C4 as stated fails: \<^verbatim>\<open>parse\<close> of a callback parameter whose callback returns
  \<^verbatim>\<open>false\<close> returns true, and stores \<^verbatim>\<open>false\<close> as the value of the descriptor.
\<close>

theorem callback_failure_ignored:
  "derived failing_callback = CmdFunction (UserCallback reports_failure) (VBool True)
   \<and> reports_failure (arguments failing_callback) = ([], [], Inr (VBool False))
   \<and> cmd_parse new_Parser failing_callback empty_streams
       = (True, failing_callback\<lparr>derived := CmdFunction (UserCallback reports_failure) (VBool False)\<rparr>,
          empty_streams)"
  by (simp add: failing_callback_def reports_failure_def new_CmdBase_def cmd_parse_def
      CmdFunction_parse_def emit_def empty_streams_def)

text \<open>
  Claim C4, amended. \<^verbatim>\<open>parse\<close> of a callback parameter returns true exactly when the
  callback returns, whatever it returns; what it returns becomes the value of the
  descriptor, and what the callback wrote is on the streams.
\<close>

theorem callback_parse_result:
  assumes "derived c = CmdFunction cb v" and "invoke p cb (arguments c) = (out, err, r)"
  shows "(fst (cmd_parse p c st) \<longleftrightarrow> (\<exists>v'. r = Inr v'))
    \<and> (\<forall>v'. r = Inr v' \<longrightarrow> cmd_parse p c st = (True, c\<lparr>derived := CmdFunction cb v'\<rparr>, emit st out err))"
  using assms by (cases r) (simp_all add: cmd_parse_def CmdFunction_parse_def)

text \<open>The callback \<^verbatim>\<open>reports_failure\<close> as the user callback of a descriptor.\<close>

theorem callback_parse_result_witness:
  "derived failing_callback = CmdFunction (UserCallback reports_failure) (VBool True)
   \<and> invoke new_Parser (UserCallback reports_failure) (arguments failing_callback) = ([], [], Inr (VBool False))
   \<and> fst (cmd_parse new_Parser failing_callback empty_streams)
   \<and> cmd_parse new_Parser failing_callback empty_streams
       = (True, failing_callback\<lparr>derived := CmdFunction (UserCallback reports_failure) (VBool False)\<rparr>,
          emit empty_streams [] [])"
proof -
  have d: "derived failing_callback = CmdFunction (UserCallback reports_failure) (VBool True)"
    by (simp add: failing_callback_def new_CmdBase_def)
  have i: "invoke new_Parser (UserCallback reports_failure) (arguments failing_callback)
      = ([], [], Inr (VBool False))"
    by (simp add: reports_failure_def)
  from callback_parse_result [OF d i, of empty_streams] d i show ?thesis by simp
qed

section \<open>The handled flag (claim C5)\<close>

text \<open>
  Claim C5 does not hold of the code: a descriptor is marked handled without a token
  matched to it or routed to it. Let the argument vector be \<^verbatim>\<open>[f, v]\<close>, where \<^verbatim>\<open>f\<close> is
  the flag of a descriptor \<^verbatim>\<open>n\<close> that is not variadic and has an empty bucket, and \<^verbatim>\<open>v\<close>
  resolves to no descriptor. \<^verbatim>\<open>run\<close> stores \<^verbatim>\<open>v\<close> in \<^verbatim>\<open>n\<close>, moves \<^verbatim>\<open>current\<close> to the
  default descriptor and only then sets \<^verbatim>\<open>current->handled\<close>. With a default descriptor
  \<^verbatim>\<open>d\<close> other than \<^verbatim>\<open>n\<close>, \<^verbatim>\<open>d\<close> is handled after \<^verbatim>\<open>run\<close> and its bucket is still empty.
  With no default descriptor the statement writes through \<^verbatim>\<open>nullptr\<close>.
\<close>

theorem handled_without_token:
  assumes args: "p_arguments p = [f, v]"
    and flag: "associated p f = Some n"
    and n: "\<not> variadic (p_commands p ! n)" "arguments (p_commands p ! n) = []"
    and plain: "associated p v = None"
  shows "(find_default p = None \<longrightarrow> run p st = Inl NullPointerDereference)
       \<and> (find_default p = Some d \<and> d \<noteq> n \<and> arguments (p_commands p ! d) = [] \<longrightarrow>
            (\<exists>b p' st'. run p st = Inr (b, p', st')
               \<and> handled (p_commands p' ! d) \<and> arguments (p_commands p' ! d) = []
               \<and> arguments (p_commands p' ! n) = [v]))"
proof (intro conjI impI)
  from associated_SomeD [OF flag] have nlen: "n < length (p_commands p)" by simp
  {
    assume none: "find_default p = None"
    with args flag n plain have "tokenization p st = Inl NullPointerDereference"
      by (simp add: tokenization_def)
    then show "run p st = Inl NullPointerDereference" by (simp add: run_def)
  next
    assume h: "find_default p = Some d \<and> d \<noteq> n \<and> arguments (p_commands p ! d) = []"
    from find_default_Some [of p d] h have dlen: "d < length (p_commands p)" by simp
    define q where "q = set_handled (push_argument (set_handled p n) n v) d"
    from args flag n plain h have t: "tokenization p st = Inr (True, q, st)"
      by (simp add: tokenization_def q_def)
    have q: "handled (p_commands q ! d)" "arguments (p_commands q ! d) = []"
      "arguments (p_commands q ! n) = [v]" "length (p_commands q) = length (p_commands p)"
      using h n(2) nlen dlen
      by (simp_all add: q_def arguments_push_argument set_handled_def)
    from t obtain b and p2 :: Parser and p' st' where
      r: "run p st = Inr (b, p', st')"
      and d2: "list_all2 (resolved True) (p_commands q) (p_commands p2)"
      and d3: "list_all2 (resolved False) (p_commands p2) (p_commands p')"
      by (rule run_after_tokenization)
    from d2 have len2: "length (p_commands p2) = length (p_commands q)"
      by (simp add: list_all2_lengthD)
    from resolved_arguments [OF d2] resolved_arguments [OF d3] len2 q nlen dlen
    have "handled (p_commands p' ! d) \<and> arguments (p_commands p' ! d) = []
               \<and> arguments (p_commands p' ! n) = [v]" by simp
    with r show "\<exists>b p' st'. run p st = Inr (b, p', st')
               \<and> handled (p_commands p' ! d) \<and> arguments (p_commands p' ! d) = []
               \<and> arguments (p_commands p' ! n) = [v]" by blast
  }
qed

text \<open>
  The programs \<^verbatim>\<open>positional_cli\<close>, where the default descriptor ends up handled, and
  \<^verbatim>\<open>flag_only_cli\<close>, which has no default descriptor, both run on \<^verbatim>\<open>-n 5\<close>.
\<close>

theorem default_marked_handled:
  "associated (positional_cli [''-n'', ''5'']) ''-n'' = Some 2
   \<and> associated (positional_cli [''-n'', ''5'']) ''5'' = None
   \<and> find_default (positional_cli [''-n'', ''5'']) = Some 1
   \<and> \<not> handled (p_commands (positional_cli [''-n'', ''5'']) ! 1)
   \<and> (\<exists>b p' st'. run (positional_cli [''-n'', ''5'']) empty_streams = Inr (b, p', st')
         \<and> handled (p_commands p' ! 1) \<and> arguments (p_commands p' ! 1) = []
         \<and> arguments (p_commands p' ! 2) = [''5''])
   \<and> descriptors (run (positional_cli [''-n'', ''5'']) empty_streams)
       = [(''h'', False, [], VBool False), ([], True, [], VString []), (''n'', True, [''5''], VInt 5)]
   \<and> associated (flag_only_cli [''-n'', ''5'']) ''-n'' = Some 1
   \<and> find_default (flag_only_cli [''-n'', ''5'']) = None
   \<and> run (flag_only_cli [''-n'', ''5'']) empty_streams = Inl NullPointerDereference"
proof -
  define pp where "pp = positional_cli [''-n'', ''5'']"
  define pf where "pf = flag_only_cli [''-n'', ''5'']"
  have p: "p_arguments pp = [''-n'', ''5'']" "associated pp ''-n'' = Some 2"
    "\<not> variadic (p_commands pp ! 2)" "arguments (p_commands pp ! 2) = []"
    "associated pp ''5'' = None"
    "find_default pp = Some 1" "(1::nat) \<noteq> 2" "arguments (p_commands pp ! 1) = []"
    "\<not> handled (p_commands pp ! 1)"
    unfolding pp_def
    by (simp_all add: example_defs registry_defs associated_def isarg_def find_cmd_def find_default_def cmd_is_def)
  have f: "p_arguments pf = [''-n'', ''5'']" "associated pf ''-n'' = Some 1"
    "\<not> variadic (p_commands pf ! 1)" "arguments (p_commands pf ! 1) = []"
    "associated pf ''5'' = None" "find_default pf = None"
    unfolding pf_def
    by (simp_all add: example_defs registry_defs associated_def isarg_def find_cmd_def find_default_def cmd_is_def)
  from handled_without_token [OF p(1-5), where d = 1 and st = empty_streams, THEN conjunct2] p(6-8)
  have 1: "\<exists>b p' st'. run pp empty_streams = Inr (b, p', st')
         \<and> handled (p_commands p' ! 1) \<and> arguments (p_commands p' ! 1) = []
         \<and> arguments (p_commands p' ! 2) = [''5'']" by simp
  from handled_without_token [OF f(1-5), where d = 0 and st = empty_streams, THEN conjunct1] f(6)
  have 2: "run pf empty_streams = Inl NullPointerDereference" by simp
  have 3: "descriptors (run (positional_cli [''-n'', ''5'']) empty_streams)
       = [(''h'', False, [], VBool False), ([], True, [], VString []), (''n'', True, [''5''], VInt 5)]"
    by code_simp
  from p(2,5,6,9) 1 3 f(2,6) 2 show ?thesis unfolding pp_def pf_def by (intro conjI)
qed

section \<open>A token that looks like a flag (claim C6)\<close>




section \<open>A required descriptor that is missing (claim C7)\<close>

text \<open>
  Claim C7 as stated fails: the program \<^verbatim>\<open>required_cli\<close> has no default descriptor, and
  run on the stray token \<^verbatim>\<open>x\<close> it returns false from the tokenizer. The required \<^verbatim>\<open>-a\<close>
  is missing, but the check for required descriptors is not reached and the only text on
  \<^verbatim>\<open>error\<close> is the invalid-parameter message for \<^verbatim>\<open>x\<close>.
\<close>

theorem stray_token_before_required_check:
  "required (p_commands (required_cli [''x'']) ! 1)
   \<and> \<not> cmd_is (p_commands (required_cli [''x'']) ! 1) ''x''
   \<and> returned (run (required_cli [''x'']) empty_streams) = Inr False
   \<and> descriptors (run (required_cli [''x'']) empty_streams)
       = [(''h'', False, [], VBool False), (''a'', False, [], VInt 0), (''b'', False, [], VInt 0)]
   \<and> diagnostics (run (required_cli [''x'']) empty_streams) = invalid_parameter (required_cli [''x'']) ''x''"
  by code_simp

text \<open>
  Claim C7, amended. Let descriptor \<^verbatim>\<open>i\<close> be required, not yet handled, not the default
  descriptor, and let none of its flags be in the argument vector: no token that starts
  with \<^verbatim>\<open>-\<close> is its short or its long flag. Then \<^verbatim>\<open>run\<close>, when it
  returns, returns false and leaves \<^verbatim>\<open>i\<close> unhandled. When the tokenization and the loop
  over the dominant descriptors succeed, \<^verbatim>\<open>run\<close> fails in the check for required
  descriptors, and the text it writes to \<^verbatim>\<open>error\<close> is the message for the first
  descriptor that is required and not handled, which is \<^verbatim>\<open>i\<close> or an earlier one.
\<close>

theorem missing_required_fails:
  assumes run: "run p st = Inr (b, p', st')"
    and i: "i < length (p_commands p)"
    and req: "required (p_commands p ! i)" and fresh: "\<not> handled (p_commands p ! i)"
    and named: "find_default p \<noteq> Some i"
    and absent: "\<forall>t\<in>set (p_arguments p). isarg t \<longrightarrow> \<not> cmd_is (p_commands p ! i) t"
  shows "\<not> b \<and> \<not> handled (p_commands p' ! i)
    \<and> (\<forall>p1 st1 p2 st2.
          tokenization p st = Inr (True, p1, st1)
          \<and> dominant_loop [0..<length (p_commands p1)] p1 st1 = (True, p2, st2)
          \<longrightarrow> (\<exists>k\<le>i. first_index (\<lambda>c. required c \<and> \<not> handled c) (p_commands p2) = Some k
                 \<and> p' = p2 \<and> st' = emit st2 [] (missing_required (p_commands p2 ! k))))"
proof -
  have after_tok: "required (p_commands p1 ! i) \<and> \<not> handled (p_commands p1 ! i)"
    if tok: "tokenization p st = Inr (b1, p1, st1)" for b1 p1 st1
  proof -
    from tokenization_frame(1) [OF tok] i have "tokenized (p_commands p ! i) (p_commands p1 ! i)"
      by (simp add: list_all2_conv_all_nth)
    with req have "required (p_commands p1 ! i)" by (simp add: tokenized_def same_flags_def)
    with tokenization_unhandled [OF tok fresh named absent] show ?thesis by simp
  qed
  have after_dom: "required (p_commands p2 ! i) \<and> \<not> handled (p_commands p2 ! i) \<and> i < length (p_commands p2)"
    if tok: "tokenization p st = Inr (b1, p1, st1)"
      and dom: "dominant_loop [0..<length (p_commands p1)] p1 st1 = (b2, p2, st2)" for b1 p1 st1 b2 p2 st2
  proof -
    from tokenization_frame(1) [OF tok] have len: "length (p_commands p1) = length (p_commands p)"
      by (simp add: list_all2_lengthD)
    from dominant_loop_frame [OF dom] i len
    have r: "resolved True (p_commands p1 ! i) (p_commands p2 ! i)"
      and len2: "length (p_commands p2) = length (p_commands p)"
      by (simp_all add: list_all2_conv_all_nth)
    from after_tok [OF tok] resolved_props(1,2) [OF r] i len2 show ?thesis
      by (simp add: same_flags_def)
  qed
  have check: "\<exists>k\<le>i. first_index (\<lambda>c. required c \<and> \<not> handled c) (p_commands p2) = Some k
      \<and> required_loop (p_commands p2) st2 = (False, emit st2 [] (missing_required (p_commands p2 ! k)))"
    if tok: "tokenization p st = Inr (b1, p1, st1)"
      and dom: "dominant_loop [0..<length (p_commands p1)] p1 st1 = (b2, p2, st2)" for b1 p1 st1 b2 p2 st2
  proof -
    let ?P = "\<lambda>c. required c \<and> \<not> handled c"
    from after_dom [OF tok dom] have "?P (p_commands p2 ! i)" "i < length (p_commands p2)" by simp_all
    then have "\<exists>x\<in>set (p_commands p2). ?P x" using nth_mem by blast
    then obtain k where k: "first_index ?P (p_commands p2) = Some k"
      using first_index_None [of ?P "p_commands p2"] by (cases "first_index ?P (p_commands p2)") auto
    from first_index_Some [OF k] \<open>?P (p_commands p2 ! i)\<close> have "k \<le> i"
      by (meson not_le)
    with k show ?thesis by (simp add: required_loop_first)
  qed
  from run show ?thesis
  proof (cases rule: run_cases)
    case tokens
    from tokenization_unhandled [OF tokens(1) fresh named absent] tokens show ?thesis by simp
  next
    case (dominant p1 st1)
    from after_dom [OF dominant(1,2)] dominant show ?thesis by simp
  next
    case (required p1 st1 st2)
    from after_dom [OF required(1,2)] check [OF required(1,2)] required show ?thesis by auto
  next
    case (remaining p1 st1 p2 st2 st3)
    from check [OF remaining(1,2)] remaining(3) show ?thesis by auto
  qed
qed

text \<open>
  The program \<^verbatim>\<open>dominant_cli\<close> run on \<^verbatim>\<open>-d\<close>, for the required \<^verbatim>\<open>-r\<close>: the tokenization
  and the dominant callback succeed, and \<^verbatim>\<open>run\<close> returns false with the message of the
  check for required descriptors last on \<^verbatim>\<open>error\<close>. The program \<^verbatim>\<open>guarded_cli\<close> run on one
  empty token, for the required \<^verbatim>\<open>-r\<close> that has no long flag: the empty token is equal to
  the absent long flag, but it does not start with \<^verbatim>\<open>-\<close> and is stored as the value of the
  default descriptor.
\<close>

theorem missing_required_fails_witness:
  "tokenization (dominant_cli [''-d'']) empty_streams
     = Inr (True, set_handled (dominant_cli [''-d'']) 1, empty_streams)
   \<and> fst (dominant_loop [0..<length (p_commands (set_handled (dominant_cli [''-d'']) 1))]
           (set_handled (dominant_cli [''-d'']) 1) empty_streams)
   \<and> p_arguments (dominant_cli [''-d'']) = [''-d'']
   \<and> required (p_commands (dominant_cli [''-d'']) ! 2)
   \<and> \<not> handled (p_commands (dominant_cli [''-d'']) ! 2)
   \<and> find_default (dominant_cli [''-d'']) \<noteq> Some 2
   \<and> \<not> cmd_is (p_commands (dominant_cli [''-d'']) ! 2) ''-d''
   \<and> (\<exists>p' st'. run (dominant_cli [''-d'']) empty_streams = Inr (False, p', st')
         \<and> \<not> handled (p_commands p' ! 2)
         \<and> (\<exists>k\<le>2. \<exists>st2. st' = emit st2 [] (missing_required (p_commands p' ! k))))
   \<and> tokenization (guarded_cli ['''']) empty_streams
     = Inr (True, set_handled (push_argument (guarded_cli ['''']) 1 '''') 1, empty_streams)
   \<and> fst (dominant_loop [0..<length (p_commands (set_handled (push_argument (guarded_cli ['''']) 1 '''') 1))]
           (set_handled (push_argument (guarded_cli ['''']) 1 '''') 1) empty_streams)
   \<and> p_arguments (guarded_cli ['''']) = ['''']
   \<and> required (p_commands (guarded_cli ['''']) ! 3)
   \<and> \<not> handled (p_commands (guarded_cli ['''']) ! 3)
   \<and> find_default (guarded_cli ['''']) \<noteq> Some 3
   \<and> cmd_is (p_commands (guarded_cli ['''']) ! 3) '''' \<and> \<not> isarg ''''
   \<and> (\<exists>p' st'. run (guarded_cli ['''']) empty_streams = Inr (False, p', st')
         \<and> \<not> handled (p_commands p' ! 3)
         \<and> (\<exists>k\<le>3. \<exists>st2. st' = emit st2 [] (missing_required (p_commands p' ! k))))"
proof -
  define D where "D = dominant_cli [''-d'']"
  define p1 where "p1 = set_handled D 1"
  have tok: "tokenization D empty_streams = Inr (True, p1, empty_streams)"
    unfolding D_def p1_def by (rule dominant_tokenization)
  obtain b2 p2 st2 where
    dl: "dominant_loop [0..<length (p_commands p1)] p1 empty_streams = (b2, p2, st2)"
    by (cases "dominant_loop [0..<length (p_commands p1)] p1 empty_streams") auto
  have ok: "fst (dominant_loop [0..<length (p_commands p1)] p1 empty_streams)"
    unfolding D_def p1_def
    by (simp add: example_defs registry_defs run_defs announces_def upt_rec)
  with dl have b2 by simp
  from tok obtain b and q :: Parser and p' st' where r: "run D empty_streams = Inr (b, p', st')"
    by (rule run_after_tokenization)
  have h: "2 < length (p_commands D)" "required (p_commands D ! 2)" "\<not> handled (p_commands D ! 2)"
    "find_default D \<noteq> Some 2" "p_arguments D = [''-d'']" "\<not> cmd_is (p_commands D ! 2) ''-d''"
    unfolding D_def
    by (simp_all add: example_defs registry_defs find_default_def cmd_is_def)
  from h(5,6) have absent: "\<forall>t\<in>set (p_arguments D). isarg t \<longrightarrow> \<not> cmd_is (p_commands D ! 2) t"
    by simp
  note inst = missing_required_fails [OF r h(1-4) absent]
  from inst have nb: "\<not> b" and nh: "\<not> handled (p_commands p' ! 2)" by simp_all
  from inst [THEN conjunct2, THEN conjunct2, rule_format, of p1 empty_streams p2 st2] tok dl \<open>b2\<close>
  have "\<exists>k\<le>2. \<exists>st2. st' = emit st2 [] (missing_required (p_commands p' ! k))"
    by auto
  with r nb nh have one: "\<exists>p' st'. run D empty_streams = Inr (False, p', st')
         \<and> \<not> handled (p_commands p' ! 2)
         \<and> (\<exists>k\<le>2. \<exists>st2. st' = emit st2 [] (missing_required (p_commands p' ! k)))"
    by auto
  define G where "G = guarded_cli ['''']"
  define g1 where "g1 = set_handled (push_argument G 1 '''') 1"
  have gtok: "tokenization G empty_streams = Inr (True, g1, empty_streams)"
    unfolding G_def g1_def by (simp add: run_defs registry_defs guarded_cli_def)
  obtain c2 g2 t2 where
    gl: "dominant_loop [0..<length (p_commands g1)] g1 empty_streams = (c2, g2, t2)"
    by (cases "dominant_loop [0..<length (p_commands g1)] g1 empty_streams") auto
  have gok: "fst (dominant_loop [0..<length (p_commands g1)] g1 empty_streams)"
    unfolding G_def g1_def
    by (simp add: guarded_cli_def registry_defs run_defs upt_rec)
  with gl have c2 by simp
  from gtok obtain gb and gq :: Parser and g' t' where gr: "run G empty_streams = Inr (gb, g', t')"
    by (rule run_after_tokenization)
  have gh: "3 < length (p_commands G)" "required (p_commands G ! 3)" "\<not> handled (p_commands G ! 3)"
    "find_default G \<noteq> Some 3" "p_arguments G = ['''']" "cmd_is (p_commands G ! 3) ''''" "\<not> isarg ''''"
    unfolding G_def
    by (simp_all add: guarded_cli_def registry_defs find_default_def cmd_is_def isarg_def)
  from gh(5,7) have gabsent: "\<forall>t\<in>set (p_arguments G). isarg t \<longrightarrow> \<not> cmd_is (p_commands G ! 3) t"
    by simp
  note ginst = missing_required_fails [OF gr gh(1-4) gabsent]
  from ginst have gnb: "\<not> gb" and gnh: "\<not> handled (p_commands g' ! 3)" by simp_all
  from ginst [THEN conjunct2, THEN conjunct2, rule_format, of g1 empty_streams g2 t2] gtok gl \<open>c2\<close>
  have "\<exists>k\<le>3. \<exists>st2. t' = emit st2 [] (missing_required (p_commands g' ! k))"
    by auto
  with gr gnb gnh have two: "\<exists>p' st'. run G empty_streams = Inr (False, p', st')
         \<and> \<not> handled (p_commands p' ! 3)
         \<and> (\<exists>k\<le>3. \<exists>st2. st' = emit st2 [] (missing_required (p_commands p' ! k)))"
    by auto
  from tok ok h(2-6) one gtok gok gh(2-7) two show ?thesis
    unfolding D_def p1_def G_def g1_def by (intro conjI)
qed

section \<open>Defaults are kept (claim C8)\<close>

text \<open>
  Claim C8. \<^verbatim>\<open>parse\<close> of a value parameter that is not required and whose collected
  arguments are empty succeeds and leaves the descriptor and both streams as they were:
  no conversion takes place. Across \<^verbatim>\<open>run\<close>, a value parameter that is not required
  and whose bucket is empty has the value it had before the run, and so has every
  descriptor that is neither handled nor required.
\<close>

theorem defaults_kept:
  "(derived c = CmdArgument v vf \<and> \<not> required c \<and> arguments c = [] \<longrightarrow> cmd_parse p0 c st0 = (True, c, st0))
   \<and> (run p st = Inr (b, p', st') \<and> i < length (p_commands p) \<longrightarrow>
        (is_argument (p_commands p ! i) \<and> \<not> required (p_commands p ! i) \<and> arguments (p_commands p' ! i) = []
           \<longrightarrow> cmd_value (p_commands p' ! i) = cmd_value (p_commands p ! i))
        \<and> (\<not> handled (p_commands p' ! i) \<and> \<not> required (p_commands p ! i)
           \<longrightarrow> cmd_value (p_commands p' ! i) = cmd_value (p_commands p ! i)))"
proof (intro conjI impI)
  assume "derived c = CmdArgument v vf \<and> \<not> required c \<and> arguments c = []"
  then show "cmd_parse p0 c st0 = (True, c, st0)"
    by (simp add: cmd_parse_def CmdArgument_parse_def)
next
  assume run: "run p st = Inr (b, p', st') \<and> i < length (p_commands p)"
  assume h: "is_argument (p_commands p ! i) \<and> \<not> required (p_commands p ! i) \<and> arguments (p_commands p' ! i) = []"
  from run run_static [of p st b p' st' i] h have "uses_default (p_commands p' ! i)"
    by (simp add: uses_default_def same_flags_def)
  with run run_value_changed [of p st b p' st' i]
  show "cmd_value (p_commands p' ! i) = cmd_value (p_commands p ! i)" by blast
next
  assume run: "run p st = Inr (b, p', st') \<and> i < length (p_commands p)"
  assume h: "\<not> handled (p_commands p' ! i) \<and> \<not> required (p_commands p ! i)"
  with run run_value_changed [of p st b p' st' i]
  show "cmd_value (p_commands p' ! i) = cmd_value (p_commands p ! i)" by blast
qed

text \<open>
  The program \<^verbatim>\<open>positional_cli\<close> run on \<^verbatim>\<open>-n\<close> alone: \<^verbatim>\<open>-n\<close> is handled with an empty
  bucket and keeps 0, the default descriptor is not handled and keeps the empty string.
\<close>

theorem defaults_kept_witness:
  "cmd_parse new_Parser (p_commands (set_handled (positional_cli [''-n'']) 2) ! 2) empty_streams
     = (True, p_commands (set_handled (positional_cli [''-n'']) 2) ! 2, empty_streams)
   \<and> run (positional_cli [''-n'']) empty_streams
       = Inr (True, set_handled (positional_cli [''-n'']) 2, empty_streams)
   \<and> handled (p_commands (set_handled (positional_cli [''-n'']) 2) ! 2)
   \<and> arguments (p_commands (set_handled (positional_cli [''-n'']) 2) ! 2) = []
   \<and> cmd_value (p_commands (set_handled (positional_cli [''-n'']) 2) ! 2) = VInt 0
   \<and> \<not> handled (p_commands (set_handled (positional_cli [''-n'']) 2) ! 1)
   \<and> cmd_value (p_commands (set_handled (positional_cli [''-n'']) 2) ! 1) = VString []"
  using defaults_kept [of "p_commands (set_handled (positional_cli [''-n'']) 2) ! 2" "VInt 0" None
      new_Parser empty_streams "positional_cli [''-n'']" empty_streams True
      "set_handled (positional_cli [''-n'']) 2" empty_streams 2]
    defaults_kept [of "p_commands (set_handled (positional_cli [''-n'']) 2) ! 2" "VInt 0" None
      new_Parser empty_streams "positional_cli [''-n'']" empty_streams True
      "set_handled (positional_cli [''-n'']) 2" empty_streams 1]
    positional_flag_only
  by (simp add: registry_defs positional_cli_def is_argument_def cmd_value_def set_handled_def update_cmd_def)

section \<open>The numerical base (claim C9)\<close>

text \<open>
  Claim C9 as stated fails: the program \<^verbatim>\<open>hex_cli\<close> registers \<^verbatim>\<open>-x\<close> as a
  \<^verbatim>\<open>NumericalBase<int, 16>\<close>. Run on \<^verbatim>\<open>-x 1A\<close>, \<^verbatim>\<open>run\<close> returns true, and \<^verbatim>\<open>get<int>("x")\<close>
  throws: the descriptor is a \<^verbatim>\<open>CmdArgument<NumericalBase<int, 16>>\<close>, which the
  \<^verbatim>\<open>dynamic_cast\<close> to \<^verbatim>\<open>CmdArgument<int>*\<close> refuses.
\<close>

theorem get_int_of_wrapper_fails:
  "run_get (hex_cli [''-x'', ''1A'']) empty_streams TInt ''x''
     = Inr (True, Inl (runtime_error ''Invalid usage of the parameter x detected.''))"
  by code_simp

text \<open>
  Claim C9, amended. In \<^verbatim>\<open>hex_cli\<close> run on \<^verbatim>\<open>-x 1A\<close>, \<^verbatim>\<open>run\<close> returns true and
  \<^verbatim>\<open>get<NumericalBase<int, 16>>("x")\<close> returns the wrapper of 26. In general \<^verbatim>\<open>parse\<close> of
  a wrapper made by its constructor converts with \<^verbatim>\<open>std::stoi\<close> in the base of the
  wrapper; in base 0 the prefix of the literal selects the base: \<^verbatim>\<open>0x1A\<close> is 26,
  \<^verbatim>\<open>012\<close> is 10 and \<^verbatim>\<open>12\<close> is 12.
\<close>

theorem numerical_base:
  "run_get (hex_cli [''-x'', ''1A'']) empty_streams (TNumBase 16) ''x''
       = Inr (True, Inr (NumericalBase 16 26))
   \<and> parse [s] (NumericalBase B v) = (case stoi s B of Inl e \<Rightarrow> Inl e | Inr n \<Rightarrow> Inr (NumericalBase B n))
   \<and> parse [''0x1A''] (NumericalBase 0 v) = Inr (NumericalBase 0 26)
   \<and> parse [''012''] (NumericalBase 0 v) = Inr (NumericalBase 0 10)
   \<and> parse [''12''] (NumericalBase 0 v) = Inr (NumericalBase 0 12)"
proof -
  have general: "parse [s] (NumericalBase B v)
      = (case stoi s B of Inl e \<Rightarrow> Inl e | Inr n \<Rightarrow> Inr (NumericalBase B n))" for s B v
    by (simp add: NumericalBase_def parse_int_def)
  have "run_get (hex_cli [''-x'', ''1A'']) empty_streams (TNumBase 16) ''x''
       = Inr (True, Inr (NumericalBase 16 26))"
    by code_simp
  moreover have "parse [''0x1A''] (NumericalBase 0 v) = Inr (NumericalBase 0 26)"
    unfolding general by code_simp
  moreover have "parse [''012''] (NumericalBase 0 v) = Inr (NumericalBase 0 10)"
    unfolding general by code_simp
  moreover have "parse [''12''] (NumericalBase 0 v) = Inr (NumericalBase 0 12)"
    unfolding general by code_simp
  ultimately show ?thesis using general by (intro conjI)
qed

section \<open>Round trip of the scalar conversions (claim C10)\<close>

text \<open>
  The claim as stated is refuted by the wrapper \<^verbatim>\<open>NumericalBase<int, 16>\<close>: \<^verbatim>\<open>10\<close> is
  the canonical literal of the \<^verbatim>\<open>int\<close> ten, \<^verbatim>\<open>parse\<close> reads it in base 16 as sixteen and
  \<^verbatim>\<open>stringify\<close>, which prints in decimal, gives \<^verbatim>\<open>16\<close>. A literal written in base 16 does
  not come back either: \<^verbatim>\<open>1A\<close> is read as 26 and printed as \<^verbatim>\<open>26\<close>.
\<close>

theorem roundtrip_hexadecimal_fails:
  "canonical_int ''10''
   \<and> parse [''10''] (NumericalBase 16 0) = Inr (NumericalBase 16 16)
   \<and> stringify (NumericalBase 16 16) = ''16''
   \<and> parse [''1A''] (NumericalBase 16 0) = Inr (NumericalBase 16 26)
   \<and> stringify (NumericalBase 16 26) = ''26''"
  by code_simp

text \<open>
  Claim C10. For every string \<^verbatim>\<open>s\<close> that is the canonical literal of an \<^verbatim>\<open>int\<close>, the
  \<^verbatim>\<open>int\<close> overload of \<^verbatim>\<open>parse\<close> applied to \<^verbatim>\<open>[s]\<close> succeeds and \<^verbatim>\<open>stringify\<close> of the
  result is \<^verbatim>\<open>s\<close>; the same holds for \<^verbatim>\<open>unsigned int\<close>, \<^verbatim>\<open>unsigned long\<close>,
  \<^verbatim>\<open>unsigned long long\<close>, \<^verbatim>\<open>long long\<close> and \<^verbatim>\<open>long\<close> with the canonical literals of
  the values of that type, and for the wrapper \<^verbatim>\<open>NumericalBase<T, B>\<close> of each of these
  types when \<^verbatim>\<open>B\<close> is 0 or 10. For every other base \<^verbatim>\<open>C\<close> from 2 to 36 the wrapper
  \<^verbatim>\<open>NumericalBase<int, C>\<close> reads the literal \<^verbatim>\<open>10\<close> as \<^verbatim>\<open>C\<close> and does not give it back.
  The canonical literals are the strings that \<^verbatim>\<open>std::to_string\<close> makes: for every value
  \<^verbatim>\<open>m\<close> of the type, \<^verbatim>\<open>to_string m\<close> is canonical and is parsed back to \<^verbatim>\<open>m\<close>. For every
  string \<^verbatim>\<open>s\<close> whatsoever, the \<^verbatim>\<open>std::string\<close> overload applied to \<^verbatim>\<open>[s]\<close> returns \<^verbatim>\<open>s\<close>
  and \<^verbatim>\<open>stringify\<close> of it is \<^verbatim>\<open>s\<close>.
\<close>

theorem roundtrip:
  "(canonical_int s \<longrightarrow> (\<exists>n. parse [s] (VInt d) = Inr (VInt n) \<and> stringify (VInt n) = s))
   \<and> (canonical_integral T s \<longrightarrow>
        (\<exists>n. parse [s] (VIntegral T d) = Inr (VIntegral T n) \<and> stringify (VIntegral T n) = s))
   \<and> (canonical_int s \<and> (B = 0 \<or> B = 10) \<longrightarrow>
        (\<exists>n. parse [s] (NumericalBase B d) = Inr (NumericalBase B n)
           \<and> stringify (NumericalBase B n) = s))
   \<and> (canonical_integral T s \<and> (B = 0 \<or> B = 10) \<longrightarrow>
        (\<exists>n. parse [s] (NumericalBaseOf T B d) = Inr (NumericalBaseOf T B n)
           \<and> stringify (NumericalBaseOf T B n) = s))
   \<and> (2 \<le> C \<and> C \<le> 36 \<and> C \<noteq> 10 \<longrightarrow>
        parse [''10''] (NumericalBase C d) = Inr (NumericalBase C (int C))
        \<and> stringify (NumericalBase C (int C)) \<noteq> ''10'')
   \<and> (INT_MIN \<le> m \<and> m \<le> INT_MAX \<longrightarrow>
        canonical_int (to_string m) \<and> parse [to_string m] (VInt d) = Inr (VInt m))
   \<and> (integral_min T \<le> m \<and> m \<le> integral_max T \<longrightarrow>
        canonical_integral T (to_string m)
        \<and> parse [to_string m] (VIntegral T d) = Inr (VIntegral T m))
   \<and> parse [s] (VString d') = Inr (VString s) \<and> stringify (VString s) = s"
proof (intro conjI impI)
  assume "canonical_int s"
  from parse_int_canonical [OF this, of 0]
  show "\<exists>n. parse [s] (VInt d) = Inr (VInt n) \<and> stringify (VInt n) = s"
    by auto
next
  assume "canonical_integral T s"
  from parse_integral_canonical [OF this, of 0]
  show "\<exists>n. parse [s] (VIntegral T d) = Inr (VIntegral T n) \<and> stringify (VIntegral T n) = s"
    by auto
next
  assume "canonical_int s \<and> (B = 0 \<or> B = 10)"
  then have c: "canonical_int s" and B: "B = 0 \<or> B = 10" by simp_all
  from B have "(if B = 0 then 0 else B) = B" by simp
  with parse_int_canonical [OF c B]
  show "\<exists>n. parse [s] (NumericalBase B d) = Inr (NumericalBase B n)
          \<and> stringify (NumericalBase B n) = s"
    by (auto simp: NumericalBase_def)
next
  assume "canonical_integral T s \<and> (B = 0 \<or> B = 10)"
  then have c: "canonical_integral T s" and B: "B = 0 \<or> B = 10" by simp_all
  from B have "(if B = 0 then 0 else B) = B" by simp
  with parse_integral_canonical [OF c B]
  show "\<exists>n. parse [s] (NumericalBaseOf T B d) = Inr (NumericalBaseOf T B n)
          \<and> stringify (NumericalBaseOf T B n) = s"
    by (auto simp: NumericalBaseOf_def)
next
  assume "2 \<le> C \<and> C \<le> 36 \<and> C \<noteq> 10"
  then have C: "2 \<le> C" "C \<le> 36" "C \<noteq> 10" by simp_all
  from C(1) have "(if C = 0 then 0 else C) = C" by simp
  with parse_ten(1) [OF C]
  show "parse [''10''] (NumericalBase C d) = Inr (NumericalBase C (int C))"
    by (simp add: NumericalBase_def)
  from parse_ten(2) [OF C]
  show "stringify (NumericalBase C (int C)) \<noteq> ''10''"
    by (simp add: NumericalBase_def)
next
  assume "INT_MIN \<le> m \<and> m \<le> INT_MAX"
  then show "canonical_int (to_string m)"
    unfolding canonical_int_def using to_string_canonical by blast
next
  assume "INT_MIN \<le> m \<and> m \<le> INT_MAX"
  then have "parse_int [to_string m] 0 = Inr m" using parse_to_string(1) [of 0 m] by simp
  then show "parse [to_string m] (VInt d) = Inr (VInt m)" by simp
next
  assume "integral_min T \<le> m \<and> m \<le> integral_max T"
  then show "canonical_integral T (to_string m)"
    unfolding canonical_integral_def using to_string_canonical by blast
next
  assume "integral_min T \<le> m \<and> m \<le> integral_max T"
  then have "parse_integral T [to_string m] 0 = Inr m" using parse_to_string(2) [of 0 T m] by simp
  then show "parse [to_string m] (VIntegral T d) = Inr (VIntegral T m)" by simp
next
  show "parse [s] (VString d') = Inr (VString s)" by simp
next
  show "stringify (VString s) = s" by simp
qed

text \<open>
  The literal \<^verbatim>\<open>-120\<close> as an \<^verbatim>\<open>int\<close> and as a \<^verbatim>\<open>long long\<close>, the literal \<^verbatim>\<open>10\<close> in base
  8, and the ends of the range of \<^verbatim>\<open>unsigned int\<close>.
\<close>

theorem roundtrip_witness:
  "canonical_int ''-120'' \<and> canonical_integral LongLong ''-120''
   \<and> (\<exists>n. parse [''-120''] (VInt 0) = Inr (VInt n) \<and> stringify (VInt n) = ''-120'')
   \<and> (\<exists>n. parse [''-120''] (VIntegral LongLong 0) = Inr (VIntegral LongLong n)
         \<and> stringify (VIntegral LongLong n) = ''-120'')
   \<and> (\<exists>n. parse [''-120''] (NumericalBase 10 0) = Inr (NumericalBase 10 n)
         \<and> stringify (NumericalBase 10 n) = ''-120'')
   \<and> (\<exists>n. parse [''-120''] (NumericalBaseOf LongLong 10 0) = Inr (NumericalBaseOf LongLong 10 n)
         \<and> stringify (NumericalBaseOf LongLong 10 n) = ''-120'')
   \<and> parse [''10''] (NumericalBase 8 0) = Inr (NumericalBase 8 8)
   \<and> stringify (NumericalBase 8 8) = ''8''
   \<and> INT_MIN \<le> - 120 \<and> - 120 \<le> INT_MAX
   \<and> integral_min LongLong \<le> - 120 \<and> - 120 \<le> integral_max LongLong
   \<and> to_string (- 120) = ''-120''
   \<and> parse [to_string (- 120)] (VInt 0) = Inr (VInt (- 120))
   \<and> parse [to_string (- 120)] (VIntegral LongLong 0) = Inr (VIntegral LongLong (- 120))
   \<and> canonical_integral UnsignedInt ''4294967295''
   \<and> \<not> canonical_integral UnsignedInt ''4294967296''
   \<and> \<not> canonical_integral UnsignedInt ''-1''
   \<and> \<not> canonical_int ''007''"
proof -
  have h: "canonical_int ''-120''" "canonical_integral LongLong ''-120''"
    "INT_MIN \<le> - 120 \<and> - 120 \<le> INT_MAX"
    "integral_min LongLong \<le> - 120 \<and> - 120 \<le> integral_max LongLong"
    by code_simp+
  have e: "to_string (- 120) = ''-120''" "stringify (NumericalBase 8 8) = ''8''"
    "\<not> canonical_integral UnsignedInt ''-1''"
    "\<not> canonical_int ''007''"
    by code_simp+
  have b: "canonical_integral UnsignedInt ''4294967295''"
    "\<not> canonical_integral UnsignedInt ''4294967296''"
    by (simp_all add: canonical_integral_def canonical_literal_def is_decimal_digit_def
        digits_value_def digit_value_def UINT_MAX_def)
  from roundtrip [of "''-120''" 0 LongLong 10 8 "- 120" "[]"] h e b
  show ?thesis by simp
qed

end
